theory Spec2Isabelle
  imports Complex_Main
begin

section \<open>Camera and viewport transform (canvas-manager.js)\<close>

text \<open>
  JavaScript numbers are modelled as real numbers: the arithmetic of the camera is the
  ideal one, and rounding is outside the model. Division by zero (which JavaScript
  answers with an infinity or NaN) does not occur for a zoom inside positive bounds.
  The DOM side of the class (the transform string written to the element, cursors,
  listeners) is not part of the state below.
\<close>

record point =
  px :: real
  py :: real

record camera =
  camX :: real
  camY :: real
  zoom :: real

record bounds =
  minZoom :: real
  maxZoom :: real

record CanvasManager =
  camera :: camera
  bounds :: bounds

record rect =
  left :: real
  top :: real

text \<open>A wheel event is a mouse event with a scroll amount.\<close>

record mouseEvent =
  clientX :: real
  clientY :: real
  button :: nat

record wheelEvent = mouseEvent +
  deltaY :: real

text \<open>The constructor: \<open>camera = {x: 0, y: 0, zoom: 1}\<close>, \<open>bounds = {minZoom: 0.1, maxZoom: 5}\<close>.\<close>

definition newCanvasManager :: CanvasManager where
  "newCanvasManager =
     \<lparr>camera = \<lparr>camX = 0, camY = 0, zoom = 1\<rparr>,
      bounds = \<lparr>minZoom = 1 / 10, maxZoom = 5\<rparr>\<rparr>"

definition screenToWorld :: "CanvasManager \<Rightarrow> real \<Rightarrow> real \<Rightarrow> point" where
  "screenToWorld cm screenX screenY =
     (let worldX = (screenX - camX (camera cm)) / zoom (camera cm);
          worldY = (screenY - camY (camera cm)) / zoom (camera cm)
      in \<lparr>px = worldX, py = worldY\<rparr>)"

definition worldToScreen :: "CanvasManager \<Rightarrow> real \<Rightarrow> real \<Rightarrow> point" where
  "worldToScreen cm worldX worldY =
     (let screenX = worldX * zoom (camera cm) + camX (camera cm);
          screenY = worldY * zoom (camera cm) + camY (camera cm)
      in \<lparr>px = screenX, py = screenY\<rparr>)"

text \<open>\<open>zoomDelta\<close> of \<open>handleZoom\<close>: \<open>deltaY > 0 ? 1 / zoomFactor : zoomFactor\<close> with
  \<open>zoomFactor = 1.1\<close>.\<close>

definition zoomDelta :: "wheelEvent \<Rightarrow> real" where
  "zoomDelta wheelEvent =
     (let zoomFactor = 11 / 10
      in if deltaY wheelEvent > 0 then 1 / zoomFactor else zoomFactor)"

definition handleZoom :: "CanvasManager \<Rightarrow> rect \<Rightarrow> wheelEvent \<Rightarrow> CanvasManager" where
  "handleZoom cm containerRect wheelEvent =
     (let mouseX = clientX wheelEvent - left containerRect;
          mouseY = clientY wheelEvent - top containerRect;
          worldPos = screenToWorld cm mouseX mouseY;
          newZoom = zoom (camera cm) * zoomDelta wheelEvent;
          constrainedZoom = max (minZoom (bounds cm)) (min (maxZoom (bounds cm)) newZoom)
      in if constrainedZoom \<noteq> newZoom then cm
         else
           let cm1 = cm\<lparr>camera := (camera cm)\<lparr>zoom := constrainedZoom\<rparr>\<rparr>;
               newScreenPos = worldToScreen cm1 (px worldPos) (py worldPos);
               cm2 = cm1\<lparr>camera := (camera cm1)\<lparr>camX := camX (camera cm1) + (mouseX - px newScreenPos)\<rparr>\<rparr>;
               cm3 = cm2\<lparr>camera := (camera cm2)\<lparr>camY := camY (camera cm2) + (mouseY - py newScreenPos)\<rparr>\<rparr>
           in cm3)"

section \<open>Module tree and viewer state (PCBSystemViewer)\<close>

text \<open>
  A connection record of \<open>connections.json\<close>. The fields other than \<open>target\<close> may be
  missing in the data (the code reads them with \<open>|| 'Unknown'\<close>), hence the options.
\<close>

record connection =
  target :: string
  kind :: "string option"
  interface :: "string option"
  signals :: "string list"
  description :: "string option"

text \<open>
  A module object. \<open>children\<close> holds the child objects themselves, so a module is a
  finite tree, which is what the tree builder produces for a directory structure.
  \<open>connections\<close> is \<open>Some cs\<close> when \<open>module.connections && module.connections.connections\<close>
  is truthy (an empty array is truthy), \<open>None\<close> otherwise.
  JavaScript compares module objects by identity (\<open>visibleModules.includes(child)\<close>);
  the model compares them by value. In a tree whose paths are unique the two agree,
  since distinct objects then differ in their \<open>path\<close>.
\<close>

datatype module =
  Module (name: string) (path: string) (parentPath: string) (children: "module list")
    (level: nat) (mtype: string) (connections: "connection list option")

record box =
  box_x :: real
  box_y :: real
  width :: real
  height :: real

record dragState =
  isDragging :: bool
  draggedModule :: "module option"
  startPos :: point
  offset :: point
  hasMoved :: bool

record PCBSystemViewer =
  allModules :: "string \<Rightarrow> module option"
  expandedModules :: "string set"
  rootModules :: "module list"
  canvasManager :: CanvasManager
  dragState :: dragState
  modulePositions :: "string \<Rightarrow> box option"

subsection \<open>Visibility\<close>

fun addExpandedChildren :: "PCBSystemViewer \<Rightarrow> module \<Rightarrow> module list \<Rightarrow> module list" where
  "addExpandedChildren v (Module n p pp cs l t c) visibleList =
     (if p \<in> expandedModules v
      then fold (\<lambda>child vl. addExpandedChildren v child (vl @ [child])) cs visibleList
      else visibleList)"

definition getVisibleModules :: "PCBSystemViewer \<Rightarrow> module list" where
  "getVisibleModules v =
     fold (\<lambda>rootModule visible. addExpandedChildren v rootModule (visible @ [rootModule]))
       (rootModules v) []"

subsection \<open>Expansion set\<close>

fun collapseModule :: "module \<Rightarrow> PCBSystemViewer \<Rightarrow> PCBSystemViewer" where
  "collapseModule (Module n p pp cs l t c) v =
     fold (\<lambda>child v'. collapseModule child v') cs
       (v\<lparr>expandedModules := expandedModules v - {p}\<rparr>)"

text \<open>
  The value of \<open>this.expandedModules\<close> after \<open>toggleModuleExpansion(module)\<close>. The calls
  that follow the update of the set (\<open>renderSystem\<close>, \<open>recalculateParentBounds\<close>,
  \<open>updateParentContainer\<close>, \<open>renderConnections\<close>, \<open>selectModule\<close>) lay out and draw;
  they read the set and never write it.
\<close>

definition toggleModuleExpansion :: "module \<Rightarrow> PCBSystemViewer \<Rightarrow> string set" where
  "toggleModuleExpansion m v =
     (if length (children m) = 0 then expandedModules v
      else if path m \<in> expandedModules v then expandedModules (collapseModule m v)
      else insert (path m) (expandedModules v))"

subsection \<open>Connections\<close>

fun getConnectionCount :: "module \<Rightarrow> nat" where
  "getConnectionCount (Module n p pp cs l t c) =
     (case c of
        Some conns \<Rightarrow> length conns
      | None \<Rightarrow> fold (\<lambda>child count. count + getConnectionCount child) cs 0)"

fun getConnectionsForModule :: "module \<Rightarrow> module list \<Rightarrow> connection list" where
  "getConnectionsForModule (Module n p pp cs l t c) visibleModules =
     (let own =
            (case c of
               Some conns \<Rightarrow>
                 (let hasVisibleChildren = list_ex (\<lambda>child. child \<in> set visibleModules) cs
                  in if \<not> hasVisibleChildren then conns else [])
             | None \<Rightarrow> [])
      in fold (\<lambda>child acc.
                 if child \<notin> set visibleModules
                 then acc @ getConnectionsForModule child visibleModules
                 else acc)
           cs own)"

subsection \<open>The document\<close>

text \<open>
  What a handler reads from the DOM: the element drawn for a module path
  (\<open>document.querySelector('[data-module-path=...]')\<close>, absent when the module is not
  drawn) with its layout size and client rectangle, and the client rectangle of the
  canvas container. A handler's own writes to the DOM (the \<open>style\<close> of elements, the
  connection lines) are not modelled: within one handler no size or rectangle is read
  after it was written.
\<close>

record element =
  offsetWidth :: real
  offsetHeight :: real
  boundingClientRect :: rect

record document =
  querySelector :: "string \<Rightarrow> element option"
  containerRect :: rect

subsection \<open>Dragging\<close>

text \<open>The closure \<open>moveChildren\<close> of \<open>moveAllDescendants\<close>; \<open>dx\<close> and \<open>dy\<close> are the
  code's \<open>deltaX\<close> and \<open>deltaY\<close>.\<close>

fun moveChildren :: "module list \<Rightarrow> real \<Rightarrow> real \<Rightarrow> module \<Rightarrow> PCBSystemViewer \<Rightarrow> PCBSystemViewer" where
  "moveChildren visibleModules dx dy (Module n p pp cs l t c) v =
     fold (\<lambda>child v.
             if child \<in> set visibleModules then
               (case modulePositions v (path child) of
                  Some childPos \<Rightarrow>
                    (let newChildPos = \<lparr>box_x = box_x childPos + dx,
                                         box_y = box_y childPos + dy,
                                         width = width childPos,
                                         height = height childPos\<rparr>;
                         v1 = v\<lparr>modulePositions := (modulePositions v)(path child \<mapsto> newChildPos)\<rparr>
                     in if path child \<in> expandedModules v1
                        then moveChildren visibleModules dx dy child v1
                        else v1)
                | None \<Rightarrow> v)
             else v)
       cs v"

definition moveAllDescendants :: "PCBSystemViewer \<Rightarrow> module \<Rightarrow> real \<Rightarrow> real \<Rightarrow> PCBSystemViewer" where
  "moveAllDescendants v parentModule dx dy =
     (let visibleModules = getVisibleModules v
      in moveChildren visibleModules dx dy parentModule v)"

definition updateModulePosition :: "document \<Rightarrow> PCBSystemViewer \<Rightarrow> module \<Rightarrow> point \<Rightarrow> PCBSystemViewer" where
  "updateModulePosition doc v m worldPos =
     (let currentPos = modulePositions v (path m);
          dx = (case currentPos of Some cp \<Rightarrow> px worldPos - box_x cp | None \<Rightarrow> 0);
          dy = (case currentPos of Some cp \<Rightarrow> py worldPos - box_y cp | None \<Rightarrow> 0);
          moduleEl = querySelector doc (path m);
          w = (case moduleEl of Some el \<Rightarrow> offsetWidth el | None \<Rightarrow> 250);
          h = (case moduleEl of Some el \<Rightarrow> offsetHeight el | None \<Rightarrow> 120);
          v1 = v\<lparr>modulePositions := (modulePositions v)(path m \<mapsto>
                  \<lparr>box_x = px worldPos, box_y = py worldPos, width = w, height = h\<rparr>)\<rparr>
      in if path m \<in> expandedModules v1 \<and> (dx \<noteq> 0 \<or> dy \<noteq> 0)
         then moveAllDescendants v1 m dx dy
         else v1)"

text \<open>
  The bounding box of the children that have a stored position. The code starts from
  \<open>Infinity\<close> and \<open>-Infinity\<close> and tests \<open>minX === Infinity\<close>; \<open>None\<close> stands for that
  start, which remains exactly when no child has a stored position.
\<close>

definition childBounds :: "PCBSystemViewer \<Rightarrow> module list \<Rightarrow> (real \<times> real \<times> real \<times> real) option" where
  "childBounds v cs =
     fold (\<lambda>child acc.
             case modulePositions v (path child) of
               Some pos \<Rightarrow>
                 (case acc of
                    None \<Rightarrow> Some (box_x pos, box_y pos, box_x pos + width pos, box_y pos + height pos)
                  | Some (minX, minY, maxX, maxY) \<Rightarrow>
                      Some (min minX (box_x pos), min minY (box_y pos),
                            max maxX (box_x pos + width pos), max maxY (box_y pos + height pos)))
             | None \<Rightarrow> acc)
       cs None"

definition recalculateParentBounds :: "document \<Rightarrow> PCBSystemViewer \<Rightarrow> module \<Rightarrow> PCBSystemViewer" where
  "recalculateParentBounds doc v parentModule =
     (let visibleModules = getVisibleModules v;
          cs = filter (\<lambda>child. child \<in> set visibleModules) (children parentModule)
      in case querySelector doc (path parentModule) of
           None \<Rightarrow> v
         | Some parentEl \<Rightarrow>
             if length cs = 0 then
               (let defaultWidth = 250;
                    defaultHeight = 120;
                    currentPos = modulePositions v (path parentModule);
                    currentX = (case currentPos of Some cp \<Rightarrow> box_x cp | None \<Rightarrow> 50);
                    currentY = (case currentPos of Some cp \<Rightarrow> box_y cp | None \<Rightarrow> 50)
                in v\<lparr>modulePositions := (modulePositions v)(path parentModule \<mapsto>
                      \<lparr>box_x = currentX, box_y = currentY,
                       width = defaultWidth, height = defaultHeight\<rparr>)\<rparr>)
             else
               (case childBounds v cs of
                  None \<Rightarrow> v
                | Some (minX, minY, maxX, maxY) \<Rightarrow>
                    (let padding = 40;
                         titleHeight = 60;
                         newX = minX - padding;
                         newY = minY - titleHeight - padding;
                         newWidth = maxX - minX + padding * 2;
                         newHeight = maxY - minY + titleHeight + padding * 2
                     in v\<lparr>modulePositions := (modulePositions v)(path parentModule \<mapsto>
                           \<lparr>box_x = newX, box_y = newY,
                            width = newWidth, height = newHeight\<rparr>)\<rparr>)))"

text \<open>
  The loop of \<open>updateParentContainer\<close> walks up through \<open>allModules\<close> by parent path; it
  ends at a module without parent path, at an unknown parent, or at a parent that is not
  expanded. A cyclic \<open>allModules\<close> would keep it running: that is the value \<open>None\<close>.
\<close>

partial_function (option) updateParentContainer ::
    "document \<Rightarrow> module \<Rightarrow> PCBSystemViewer \<Rightarrow> PCBSystemViewer option" where
  "updateParentContainer doc currentModule v =
     (if parentPath currentModule \<noteq> [] then
        (case allModules v (parentPath currentModule) of
           Some parent \<Rightarrow>
             if path parent \<in> expandedModules v
             then updateParentContainer doc parent (recalculateParentBounds doc v parent)
             else Some v
         | None \<Rightarrow> Some v)
      else Some v)"

text \<open>
  \<open>startModuleDrag\<close> reads the rectangle of the module's element; without an element the
  call throws (\<open>None\<close>).
\<close>

definition startModuleDrag :: "document \<Rightarrow> PCBSystemViewer \<Rightarrow> module \<Rightarrow> mouseEvent \<Rightarrow> PCBSystemViewer option" where
  "startModuleDrag doc v m ev =
     (case querySelector doc (path m) of
        None \<Rightarrow> None
      | Some moduleEl \<Rightarrow>
          (let r = boundingClientRect moduleEl;
               cr = containerRect doc
           in Some (v\<lparr>dragState :=
                \<lparr>isDragging = True,
                 draggedModule = Some m,
                 startPos = \<lparr>px = clientX ev, py = clientY ev\<rparr>,
                 offset = \<lparr>px = clientX ev - left r + left cr,
                           py = clientY ev - top r + top cr\<rparr>,
                 hasMoved = False\<rparr>\<rparr>)))"

definition updateModuleDrag :: "document \<Rightarrow> PCBSystemViewer \<Rightarrow> mouseEvent \<Rightarrow> PCBSystemViewer option" where
  "updateModuleDrag doc v ev =
     (case draggedModule (dragState v) of
        None \<Rightarrow> Some v
      | Some m \<Rightarrow>
          if \<not> isDragging (dragState v) then Some v
          else
            (let cr = containerRect doc;
                 canvasX = clientX ev - left cr;
                 canvasY = clientY ev - top cr;
                 worldPos = screenToWorld (canvasManager v)
                              (canvasX - px (offset (dragState v)))
                              (canvasY - py (offset (dragState v)));
                 v1 = updateModulePosition doc v m worldPos
             in updateParentContainer doc m v1))"

definition endModuleDrag :: "PCBSystemViewer \<Rightarrow> PCBSystemViewer" where
  "endModuleDrag v =
     v\<lparr>dragState :=
        \<lparr>isDragging = False, draggedModule = None, startPos = \<lparr>px = 0, py = 0\<rparr>,
         offset = \<lparr>px = 0, py = 0\<rparr>, hasMoved = False\<rparr>\<rparr>"

definition cancelDrag :: "document \<Rightarrow> PCBSystemViewer \<Rightarrow> PCBSystemViewer" where
  "cancelDrag doc v =
     (let v1 =
        (case draggedModule (dragState v) of
           Some m \<Rightarrow>
             if isDragging (dragState v) then
               (case modulePositions v (path m) of
                  Some originalPos \<Rightarrow>
                    updateModulePosition doc v m \<lparr>px = box_x originalPos, py = box_y originalPos\<rparr>
                | None \<Rightarrow> v)
             else v
         | None \<Rightarrow> v)
      in endModuleDrag v1)"

subsection \<open>Connection pairs\<close>

text \<open>\<open>targetPath.startsWith(pre)\<close> and \<open>targetPath.split('/').pop()\<close>.\<close>

definition startsWith :: "string \<Rightarrow> string \<Rightarrow> bool" where
  "startsWith s pre \<longleftrightarrow> take (length pre) s = pre"

definition lastComponent :: "string \<Rightarrow> string" where
  "lastComponent s = rev (takeWhile (\<lambda>ch. ch \<noteq> CHR ''/'') (rev s))"

definition findTargetModule :: "PCBSystemViewer \<Rightarrow> string \<Rightarrow> module list \<Rightarrow> module option" where
  "findTargetModule v targetPath visibleModules =
     (if startsWith targetPath ''../'' \<or> startsWith targetPath ''./'' then
        (let targetName = lastComponent targetPath
         in find (\<lambda>m. name m = targetName) visibleModules)
      else
        (let byName = (let targetName = lastComponent targetPath
                       in find (\<lambda>m. name m = targetName) visibleModules)
         in case allModules v targetPath of
              Some targetModule \<Rightarrow>
                if targetModule \<in> set visibleModules then Some targetModule else byName
            | None \<Rightarrow> byName))"

text \<open>An entry of the \<open>pairs\<close> map: \<open>{from, to, connections}\<close>.\<close>

record connectionPair =
  pair_from :: module
  pair_to :: module
  pair_connections :: "connection list"

text \<open>The key of a pair: \<open>`${module.path}->${target.path}`\<close>.\<close>

definition pairKey :: "module \<Rightarrow> module \<Rightarrow> string" where
  "pairKey m tgt = path m @ ''->'' @ path tgt"

text \<open>
  The JavaScript \<open>Map\<close> as an association list in insertion order: \<open>has\<close>, \<open>set\<close> (a new
  key goes to the end, a known key keeps its place) and the push onto the
  \<open>connections\<close> of the entry that \<open>get\<close> returns. The code pushes only after it has
  made sure that the key is there.
\<close>

definition mapHas :: "string \<Rightarrow> (string \<times> connectionPair) list \<Rightarrow> bool" where
  "mapHas key pairs \<longleftrightarrow> key \<in> fst ` set pairs"

fun mapSet :: "string \<Rightarrow> connectionPair \<Rightarrow> (string \<times> connectionPair) list \<Rightarrow> (string \<times> connectionPair) list" where
  "mapSet key e [] = [(key, e)]"
| "mapSet key e ((k, e') # pairs) =
     (if k = key then (key, e) # pairs else (k, e') # mapSet key e pairs)"

fun mapPush :: "string \<Rightarrow> connection \<Rightarrow> (string \<times> connectionPair) list \<Rightarrow> (string \<times> connectionPair) list" where
  "mapPush key conn [] = []"
| "mapPush key conn ((k, e) # pairs) =
     (if k = key then (k, e\<lparr>pair_connections := pair_connections e @ [conn]\<rparr>) # pairs
      else (k, e) # mapPush key conn pairs)"

definition calculateConnectionPairs :: "PCBSystemViewer \<Rightarrow> module list \<Rightarrow> connectionPair list" where
  "calculateConnectionPairs v visibleModules =
     (let pairs =
        fold (\<lambda>m pairs.
                let conns = getConnectionsForModule m visibleModules
                in fold (\<lambda>conn pairs.
                           case findTargetModule v (target conn) visibleModules of
                             Some tgt \<Rightarrow>
                               (let key = pairKey m tgt;
                                    pairs1 = (if \<not> mapHas key pairs
                                              then mapSet key \<lparr>pair_from = m, pair_to = tgt,
                                                               pair_connections = []\<rparr> pairs
                                              else pairs)
                                in mapPush key conn pairs1)
                           | None \<Rightarrow> pairs)
                     conns pairs)
          visibleModules []
      in map snd pairs)"

text \<open>The line thickness of \<open>renderConnectionArrow\<close>:
  \<open>Math.min(8, Math.max(2, connections.length * 2))\<close>.\<close>

definition thickness :: "connection list \<Rightarrow> nat" where
  "thickness conns = min 8 (max 2 (length conns * 2))"

text \<open>
  For the statement of the grouping: the connections of a render pass that resolve to
  a visible target, in the order the code meets them, each with its source module and
  its resolved target.
\<close>

definition resolvedConnections :: "PCBSystemViewer \<Rightarrow> module list \<Rightarrow> (module \<times> connection \<times> module) list" where
  "resolvedConnections v visibleModules =
     concat (map (\<lambda>m.
        concat (map (\<lambda>conn.
          case findTargetModule v (target conn) visibleModules of
            Some tgt \<Rightarrow> [(m, conn, tgt)]
          | None \<Rightarrow> [])
          (getConnectionsForModule m visibleModules)))
        visibleModules)"

text \<open>
  One step of the aggregation, for a connection that has been resolved, and the key it
  is filed under.
\<close>

definition addResolved :: "(module \<times> connection \<times> module) \<Rightarrow> (string \<times> connectionPair) list \<Rightarrow> (string \<times> connectionPair) list" where
  "addResolved x pairs =
     (case x of (m, conn, tgt) \<Rightarrow>
        (let key = pairKey m tgt;
             pairs1 = (if \<not> mapHas key pairs
                       then mapSet key \<lparr>pair_from = m, pair_to = tgt, pair_connections = []\<rparr> pairs
                       else pairs)
         in mapPush key conn pairs1))"

definition resolvedKey :: "(module \<times> connection \<times> module) \<Rightarrow> string" where
  "resolvedKey x = (case x of (m, conn, tgt) \<Rightarrow> pairKey m tgt)"

subsection \<open>Notions for the statement of the drag\<close>

text \<open>
  A box moved by \<open>(dx, dy)\<close>, a box map with the boxes of a set of paths moved, and the
  modules \<open>moveChildren\<close> reaches below a module: the children that are visible and
  have a stored box, and below those that are expanded, what it reaches there.
\<close>

definition translateBox :: "real \<Rightarrow> real \<Rightarrow> box \<Rightarrow> box" where
  "translateBox dx dy b =
     \<lparr>box_x = box_x b + dx, box_y = box_y b + dy, width = width b, height = height b\<rparr>"

definition shiftBoxes :: "string set \<Rightarrow> real \<Rightarrow> real \<Rightarrow> (string \<Rightarrow> box option) \<Rightarrow> (string \<Rightarrow> box option)" where
  "shiftBoxes S dx dy pos = (\<lambda>q. if q \<in> S then map_option (translateBox dx dy) (pos q) else pos q)"

fun reach :: "module list \<Rightarrow> string set \<Rightarrow> string set \<Rightarrow> module \<Rightarrow> module list" where
  "reach vis E D (Module n p pp cs l t c) =
     concat (map (\<lambda>child.
        if child \<in> set vis \<and> path child \<in> D
        then child # (if path child \<in> E then reach vis E D child else [])
        else []) cs)"

subsection \<open>Well-formed trees\<close>

text \<open>The proper descendants of a module (pre-order), and all modules of a forest.\<close>

fun descendants :: "module \<Rightarrow> module list" where
  "descendants (Module n p pp cs l t c) = concat (map (\<lambda>child. child # descendants child) cs)"

definition allNodes :: "module list \<Rightarrow> module list" where
  "allNodes roots = concat (map (\<lambda>r. r # descendants r) roots)"

text \<open>
  What the tree builder guarantees: paths are unique and not empty, a root has level 0
  and the empty parent path, a child names its parent in \<open>parentPath\<close> and lies one
  level below it, and \<open>allModules\<close> maps exactly the paths of the tree to their modules.
\<close>

definition wellFormed :: "PCBSystemViewer \<Rightarrow> bool" where
  "wellFormed v \<longleftrightarrow>
     distinct (map path (allNodes (rootModules v)))
     \<and> (\<forall>m \<in> set (allNodes (rootModules v)). path m \<noteq> [])
     \<and> (\<forall>r \<in> set (rootModules v). level r = 0 \<and> parentPath r = [])
     \<and> (\<forall>m \<in> set (allNodes (rootModules v)). \<forall>child \<in> set (children m).
           parentPath child = path m \<and> level child = level m + 1)
     \<and> (\<forall>q. allModules v q = find (\<lambda>m. path m = q) (allNodes (rootModules v)))"

text \<open>The connections a module declares itself (none without a connection list).\<close>

definition declaredConnections :: "module \<Rightarrow> connection list" where
  "declaredConnections m = (case connections m of Some conns \<Rightarrow> conns | None \<Rightarrow> [])"

subsection \<open>Example data\<close>

definition conn1 :: connection where
  "conn1 = \<lparr>target = ''C'', kind = Some ''bus'', interface = Some ''SPI'',
            signals = [''MOSI'', ''MISO''], description = Some ''sensor link''\<rparr>"

definition conn2 :: connection where
  "conn2 = \<lparr>target = ''C'', kind = Some ''bus'', interface = Some ''I2C'',
            signals = [''SDA'', ''SCL''], description = None\<rparr>"

text \<open>Root \<open>A\<close> contains \<open>B\<close>, which contains \<open>D\<close>; \<open>C\<close> is a second root.\<close>

definition exD :: module where
  "exD = Module ''D'' ''A/B/D'' ''A/B'' [] 2 ''system'' None"

definition exB :: module where
  "exB = Module ''B'' ''A/B'' ''A'' [exD] 1 ''system'' (Some [conn2])"

definition exA :: module where
  "exA = Module ''A'' ''A'' [] [exB] 0 ''system'' (Some [conn1])"

definition exC :: module where
  "exC = Module ''C'' ''C'' [] [] 0 ''system'' None"

definition noDrag :: dragState where
  "noDrag = \<lparr>isDragging = False, draggedModule = None, startPos = \<lparr>px = 0, py = 0\<rparr>,
             offset = \<lparr>px = 0, py = 0\<rparr>, hasMoved = False\<rparr>"

text \<open>The viewer right after loading (nothing expanded), and with \<open>A\<close> and \<open>B\<close> expanded.\<close>

definition exCollapsed :: PCBSystemViewer where
  "exCollapsed =
     \<lparr>allModules = (\<lambda>q. find (\<lambda>m. path m = q) (allNodes [exA, exC])),
      expandedModules = {},
      rootModules = [exA, exC],
      canvasManager = newCanvasManager,
      dragState = noDrag,
      modulePositions = Map.empty\<rparr>"

definition exExpanded :: PCBSystemViewer where
  "exExpanded = exCollapsed\<lparr>expandedModules := {''A'', ''A/B''}\<rparr>"

text \<open>A module with one connection of its own whose child declares five, and a module
  without a connection list over the same child and \<open>B\<close>.\<close>

definition exFive :: module where
  "exFive = Module ''K'' ''P/K'' ''P'' [] 1 ''system''
              (Some [conn1, conn2, conn1, conn2, conn1])"

definition exOwn :: module where
  "exOwn = Module ''P'' ''P'' [] [exFive] 0 ''pcb'' (Some [conn2])"

definition exGroup :: module where
  "exGroup = Module ''G'' ''G'' [] [exFive, exB] 0 ''system'' None"

text \<open>
  The expanded viewer after a render: every visible module has a stored box and an
  element of that size at that place (camera at the origin with zoom 1, container at the
  client origin).
\<close>

definition exBoxes :: "string \<Rightarrow> box option" where
  "exBoxes =
     [''A'' \<mapsto> \<lparr>box_x = 50, box_y = 50, width = 300, height = 360\<rparr>,
      ''A/B'' \<mapsto> \<lparr>box_x = 90, box_y = 150, width = 220, height = 220\<rparr>,
      ''A/B/D'' \<mapsto> \<lparr>box_x = 130, box_y = 250, width = 140, height = 80\<rparr>,
      ''C'' \<mapsto> \<lparr>box_x = 400, box_y = 50, width = 250, height = 120\<rparr>]"

definition exDoc :: document where
  "exDoc =
     \<lparr>querySelector = (\<lambda>q. case exBoxes q of
          None \<Rightarrow> None
        | Some b \<Rightarrow> Some \<lparr>offsetWidth = width b, offsetHeight = height b,
                        boundingClientRect = \<lparr>left = box_x b, top = box_y b\<rparr>\<rparr>),
      containerRect = \<lparr>left = 0, top = 0\<rparr>\<rparr>"

definition exRendered :: PCBSystemViewer where
  "exRendered = exExpanded\<lparr>modulePositions := exBoxes\<rparr>"

text \<open>The rendered viewer while \<open>B\<close> is dragged, grabbed 10 pixels inside its corner.\<close>

definition exDragging :: PCBSystemViewer where
  "exDragging = exRendered\<lparr>dragState :=
     \<lparr>isDragging = True, draggedModule = Some exB, startPos = \<lparr>px = 100, py = 160\<rparr>,
      offset = \<lparr>px = 10, py = 10\<rparr>, hasMoved = False\<rparr>\<rparr>"

text \<open>Four roots whose paths make two different pairs with the same key.\<close>

definition keyConn1 :: connection where
  "keyConn1 = \<lparr>target = ''b->c'', kind = None, interface = Some ''UART'',
               signals = [''TX''], description = None\<rparr>"

definition keyConn2 :: connection where
  "keyConn2 = \<lparr>target = ''c'', kind = None, interface = Some ''CAN'',
               signals = [''H'', ''L''], description = None\<rparr>"

definition kA :: module where
  "kA = Module ''a'' ''a'' [] [] 0 ''system'' (Some [keyConn1])"

definition kAB :: module where
  "kAB = Module ''a->b'' ''a->b'' [] [] 0 ''system'' (Some [keyConn2])"

definition kBC :: module where
  "kBC = Module ''b->c'' ''b->c'' [] [] 0 ''system'' None"

definition kC :: module where
  "kC = Module ''c'' ''c'' [] [] 0 ''system'' None"

definition exKeys :: PCBSystemViewer where
  "exKeys =
     \<lparr>allModules = (\<lambda>q. find (\<lambda>m. path m = q) (allNodes [kA, kAB, kBC, kC])),
      expandedModules = {},
      rootModules = [kA, kAB, kBC, kC],
      canvasManager = newCanvasManager,
      dragState = noDrag,
      modulePositions = Map.empty\<rparr>"

section \<open>Theorems\<close>

subsection \<open>Camera\<close>

text \<open>
  C1. For a camera whose zoom lies inside bounds with a positive lower bound (the
  constructor's are 0.1 and 5), \<open>worldToScreen\<close> after \<open>screenToWorld\<close> and
  \<open>screenToWorld\<close> after \<open>worldToScreen\<close> both return the point they started from:
  the two conversions are mutual inverses.
\<close>

theorem C1_conversion_roundtrip:
  assumes "0 < minZoom (bounds cm)"
    and "minZoom (bounds cm) \<le> zoom (camera cm)"
    and "zoom (camera cm) \<le> maxZoom (bounds cm)"
  shows "worldToScreen cm (px (screenToWorld cm sx sy)) (py (screenToWorld cm sx sy))
           = \<lparr>px = sx, py = sy\<rparr>
       \<and> screenToWorld cm (px (worldToScreen cm sx sy)) (py (worldToScreen cm sx sy))
           = \<lparr>px = sx, py = sy\<rparr>"
proof -
  from assms have z: "zoom (camera cm) \<noteq> 0" by linarith
  then show ?thesis
    by (simp add: worldToScreen_def screenToWorld_def)
qed

theorem C1_conversion_roundtrip_witness:
  "worldToScreen newCanvasManager (px (screenToWorld newCanvasManager 30 40))
       (py (screenToWorld newCanvasManager 30 40)) = \<lparr>px = 30, py = 40\<rparr>
   \<and> screenToWorld newCanvasManager (px (worldToScreen newCanvasManager 30 40))
       (py (worldToScreen newCanvasManager 30 40)) = \<lparr>px = 30, py = 40\<rparr>"
  using C1_conversion_roundtrip [of newCanvasManager 30 40]
  by (simp add: newCanvasManager_def)

text \<open>
  C2. When the tentative zoom (current zoom times the wheel factor) falls outside
  \<open>[minZoom, maxZoom]\<close>, \<open>handleZoom\<close> returns the manager unchanged: neither the zoom
  nor the pan offsets move.
\<close>

theorem C2_zoom_out_of_bounds_noop:
  assumes "minZoom (bounds cm) \<le> zoom (camera cm)"
    and "zoom (camera cm) \<le> maxZoom (bounds cm)"
    and "zoom (camera cm) * zoomDelta ev < minZoom (bounds cm)
         \<or> maxZoom (bounds cm) < zoom (camera cm) * zoomDelta ev"
  shows "handleZoom cm cr ev = cm"
  using assms by (auto simp: handleZoom_def Let_def max_def min_def)

theorem C2_zoom_out_of_bounds_noop_witness:
  "handleZoom (newCanvasManager\<lparr>camera := \<lparr>camX = 12, camY = 7, zoom = 5\<rparr>\<rparr>)
      \<lparr>left = 0, top = 0\<rparr> \<lparr>clientX = 300, clientY = 200, button = 0, deltaY = - 100\<rparr>
   = newCanvasManager\<lparr>camera := \<lparr>camX = 12, camY = 7, zoom = 5\<rparr>\<rparr>"
  using C2_zoom_out_of_bounds_noop
    [of "newCanvasManager\<lparr>camera := \<lparr>camX = 12, camY = 7, zoom = 5\<rparr>\<rparr>"
        "\<lparr>clientX = 300, clientY = 200, button = 0, deltaY = - 100\<rparr>" "\<lparr>left = 0, top = 0\<rparr>"]
  by (simp add: newCanvasManager_def zoomDelta_def)

text \<open>
  C3. When the tentative zoom stays inside the bounds, \<open>handleZoom\<close> sets the zoom to
  the tentative value, and every world point that the camera showed at the cursor's
  screen position before the zoom is shown at the same screen position by the updated
  camera: the pixel under the cursor stays fixed.
\<close>

theorem C3_zoom_keeps_cursor_fixed:
  assumes "0 < minZoom (bounds cm)"
    and "minZoom (bounds cm) \<le> zoom (camera cm)"
    and "zoom (camera cm) \<le> maxZoom (bounds cm)"
    and "minZoom (bounds cm) \<le> zoom (camera cm) * zoomDelta ev"
    and "zoom (camera cm) * zoomDelta ev \<le> maxZoom (bounds cm)"
    and "mouseX = clientX ev - left cr"
    and "mouseY = clientY ev - top cr"
    and under: "worldToScreen cm wx wy = \<lparr>px = mouseX, py = mouseY\<rparr>"
  shows "zoom (camera (handleZoom cm cr ev)) = zoom (camera cm) * zoomDelta ev
       \<and> worldToScreen (handleZoom cm cr ev) wx wy = \<lparr>px = mouseX, py = mouseY\<rparr>"
proof -
  from assms(1,2) have z: "zoom (camera cm) \<noteq> 0" by linarith
  from under have "wx * zoom (camera cm) + camX (camera cm) = mouseX"
    and "wy * zoom (camera cm) + camY (camera cm) = mouseY"
    by (simp_all add: worldToScreen_def)
  with z have w: "screenToWorld cm mouseX mouseY = \<lparr>px = wx, py = wy\<rparr>"
    by (auto simp: screenToWorld_def)
  have inb: "max (minZoom (bounds cm)) (min (maxZoom (bounds cm)) (zoom (camera cm) * zoomDelta ev))
             = zoom (camera cm) * zoomDelta ev"
    using assms(4,5) by (simp add: max_def min_def)
  show ?thesis
    using w inb assms(6,7)
    by (simp add: handleZoom_def Let_def worldToScreen_def)
qed

theorem C3_zoom_keeps_cursor_fixed_witness:
  "zoom (camera (handleZoom (newCanvasManager\<lparr>camera := \<lparr>camX = 12, camY = 7, zoom = 2\<rparr>\<rparr>)
        \<lparr>left = 10, top = 20\<rparr>
        \<lparr>clientX = 310, clientY = 220, button = 0, deltaY = - 100\<rparr>)) = 11 / 5
   \<and> worldToScreen (newCanvasManager\<lparr>camera := \<lparr>camX = 12, camY = 7, zoom = 2\<rparr>\<rparr>) 144 (193 / 2)
       = \<lparr>px = 300, py = 200\<rparr>
   \<and> worldToScreen (handleZoom (newCanvasManager\<lparr>camera := \<lparr>camX = 12, camY = 7, zoom = 2\<rparr>\<rparr>)
        \<lparr>left = 10, top = 20\<rparr>
        \<lparr>clientX = 310, clientY = 220, button = 0, deltaY = - 100\<rparr>) 144 (193 / 2)
       = \<lparr>px = 300, py = 200\<rparr>"
proof -
  let ?cm = "newCanvasManager\<lparr>camera := \<lparr>camX = 12, camY = 7, zoom = 2\<rparr>\<rparr>"
  let ?ev = "\<lparr>clientX = 310, clientY = 220, button = 0, deltaY = - 100\<rparr>"
  let ?cr = "\<lparr>left = 10, top = 20\<rparr>"
  have under: "worldToScreen ?cm 144 (193 / 2) = \<lparr>px = 300, py = 200\<rparr>"
    by (simp add: worldToScreen_def newCanvasManager_def)
  have h: "0 < minZoom (bounds ?cm)" "minZoom (bounds ?cm) \<le> zoom (camera ?cm)"
    "zoom (camera ?cm) \<le> maxZoom (bounds ?cm)"
    "minZoom (bounds ?cm) \<le> zoom (camera ?cm) * zoomDelta ?ev"
    "zoom (camera ?cm) * zoomDelta ?ev \<le> maxZoom (bounds ?cm)"
    "(300::real) = clientX ?ev - left ?cr" "(200::real) = clientY ?ev - top ?cr"
    by (simp_all add: newCanvasManager_def zoomDelta_def)
  have zd: "zoom (camera ?cm) * zoomDelta ?ev = 11 / 5"
    by (simp add: zoomDelta_def)
  from C3_zoom_keeps_cursor_fixed [OF h under] zd under show ?thesis by simp
qed

subsection \<open>Visible modules\<close>

text \<open>The list a module adds is its children, each followed by what the child adds.\<close>

lemma addExpandedChildren_eq:
  "addExpandedChildren v m vl =
     vl @ (if path m \<in> expandedModules v
           then concat (map (\<lambda>child. child # addExpandedChildren v child []) (children m))
           else [])"
proof (induction m arbitrary: vl)
  case (Module n p pp cs l t c)
  have inner: "fold (\<lambda>child vl. addExpandedChildren v child (vl @ [child])) cs' vl
               = vl @ concat (map (\<lambda>child. child # addExpandedChildren v child []) cs')"
    if "set cs' \<subseteq> set cs" for cs' vl
    using that
  proof (induction cs' arbitrary: vl)
    case Nil
    show ?case by simp
  next
    case (Cons a cs')
    have a: "a \<in> set cs" using Cons.prems by simp
    have "addExpandedChildren v a (vl @ [a]) = (vl @ [a]) @ addExpandedChildren v a []"
      using Module.IH [OF a, of "vl @ [a]"] Module.IH [OF a, of "[]"] by simp
    then show ?case using Cons by simp
  qed
  show ?case using inner [of cs vl] by (simp add: addExpandedChildren.simps)
qed

lemma getVisibleModules_eq:
  "getVisibleModules v = concat (map (\<lambda>r. r # addExpandedChildren v r []) (rootModules v))"
proof -
  have "fold (\<lambda>rootModule visible. addExpandedChildren v rootModule (visible @ [rootModule])) rs vl
        = vl @ concat (map (\<lambda>r. r # addExpandedChildren v r []) rs)" for rs vl
  proof (induction rs arbitrary: vl)
    case Nil
    show ?case by simp
  next
    case (Cons a rs)
    have "addExpandedChildren v a (vl @ [a]) = (vl @ [a]) @ addExpandedChildren v a []"
      using addExpandedChildren_eq [of v a "vl @ [a]"] addExpandedChildren_eq [of v a "[]"] by simp
    then show ?case using Cons by simp
  qed
  then show ?thesis by (simp add: getVisibleModules_def)
qed

declare addExpandedChildren.simps [simp del]

lemma shown_has_parent:
  "m \<in> set (addExpandedChildren v r []) \<Longrightarrow>
     \<exists>p \<in> set (r # addExpandedChildren v r []). m \<in> set (children p) \<and> path p \<in> expandedModules v"
proof (induction r)
  case (Module n p pp cs l t c)
  let ?r = "Module n p pp cs l t c"
  have unfold: "addExpandedChildren v ?r [] =
      (if p \<in> expandedModules v
       then concat (map (\<lambda>child. child # addExpandedChildren v child []) cs) else [])"
    using addExpandedChildren_eq [of v ?r "[]"] by simp
  from Module.prems have ex: "p \<in> expandedModules v"
    unfolding unfold by (simp split: if_splits)
  from Module.prems ex obtain ch where ch: "ch \<in> set cs" "m = ch \<or> m \<in> set (addExpandedChildren v ch [])"
    unfolding unfold by auto
  from ch(2) show ?case
  proof
    assume "m = ch"
    then show ?thesis using ch(1) ex by auto
  next
    assume "m \<in> set (addExpandedChildren v ch [])"
    from Module.IH [OF ch(1) this] obtain q where
      q: "q \<in> set (ch # addExpandedChildren v ch [])" "m \<in> set (children q)" "path q \<in> expandedModules v"
      by blast
    have "q \<in> set (addExpandedChildren v ?r [])"
      unfolding unfold using q(1) ch(1) ex by auto
    then show ?thesis using q(2,3) by auto
  qed
qed

lemma visible_root_or_child:
  assumes "m \<in> set (getVisibleModules v)"
  shows "m \<in> set (rootModules v)
       \<or> (\<exists>p \<in> set (getVisibleModules v). m \<in> set (children p) \<and> path p \<in> expandedModules v)"
proof -
  from assms obtain r where r: "r \<in> set (rootModules v)" "m = r \<or> m \<in> set (addExpandedChildren v r [])"
    by (auto simp: getVisibleModules_eq)
  from r(2) show ?thesis
  proof
    assume "m = r" then show ?thesis using r(1) by simp
  next
    assume "m \<in> set (addExpandedChildren v r [])"
    from shown_has_parent [OF this] obtain p where
      "p \<in> set (r # addExpandedChildren v r [])" "m \<in> set (children p)" "path p \<in> expandedModules v"
      by blast
    moreover then have "p \<in> set (getVisibleModules v)"
      using r(1) by (auto simp: getVisibleModules_eq)
    ultimately show ?thesis by blast
  qed
qed

subsection \<open>Descendants and well-formed trees\<close>

lemma descendants_trans:
  "x \<in> set (descendants r) \<Longrightarrow> set (descendants x) \<subseteq> set (descendants r)"
proof (induction r)
  case (Module n p pp cs l t c)
  from Module.prems obtain ch where ch: "ch \<in> set cs" "x = ch \<or> x \<in> set (descendants ch)"
    by auto
  from ch(2) have "set (descendants x) \<subseteq> set (descendants ch)"
    using Module.IH [OF ch(1)] by auto
  then show ?case using ch(1) by auto
qed

lemma children_descendants: "set (children m) \<subseteq> set (descendants m)"
  by (cases m) auto

lemma allNodes_closed:
  assumes "m \<in> set (allNodes roots)"
  shows "set (descendants m) \<subseteq> set (allNodes roots)"
proof -
  from assms obtain r where r: "r \<in> set roots" "m = r \<or> m \<in> set (descendants r)"
    by (auto simp: allNodes_def)
  then have "set (descendants m) \<subseteq> set (descendants r)"
    using descendants_trans by auto
  then show ?thesis using r(1) by (auto simp: allNodes_def)
qed

lemma shown_descendants:
  "set (addExpandedChildren v r []) \<subseteq> set (descendants r)"
proof (induction r)
  case (Module n p pp cs l t c)
  let ?r = "Module n p pp cs l t c"
  have unfold: "addExpandedChildren v ?r [] =
      (if p \<in> expandedModules v
       then concat (map (\<lambda>child. child # addExpandedChildren v child []) cs) else [])"
    using addExpandedChildren_eq [of v ?r "[]"] by simp
  show ?case
  proof
    fix x assume "x \<in> set (addExpandedChildren v ?r [])"
    then obtain ch where ch: "ch \<in> set cs" "x = ch \<or> x \<in> set (addExpandedChildren v ch [])"
      unfolding unfold by (auto split: if_splits)
    then have "x = ch \<or> x \<in> set (descendants ch)"
      using Module.IH [OF ch(1)] by auto
    then show "x \<in> set (descendants ?r)"
      using ch(1) by auto
  qed
qed

lemma visible_allNodes: "set (getVisibleModules v) \<subseteq> set (allNodes (rootModules v))"
  using shown_descendants by (fastforce simp: getVisibleModules_eq allNodes_def)

lemma find_distinct_key:
  "distinct (map f xs) \<Longrightarrow> x \<in> set xs \<Longrightarrow> find (\<lambda>y. f y = f x) xs = Some x"
  by (induction xs) (auto simp: image_iff)

lemma wellFormed_lookup:
  "wellFormed v \<Longrightarrow> m \<in> set (allNodes (rootModules v)) \<Longrightarrow> allModules v (path m) = Some m"
  by (simp add: wellFormed_def find_distinct_key)

lemma wellFormed_exCollapsed: "wellFormed exCollapsed"
  by (simp add: wellFormed_def exCollapsed_def allNodes_def exA_def exB_def exC_def exD_def)

lemma wellFormed_exExpanded: "wellFormed exExpanded"
  using wellFormed_exCollapsed by (simp add: wellFormed_def exExpanded_def)

lemma visible_exCollapsed: "getVisibleModules exCollapsed = [exA, exC]"
  by (simp add: getVisibleModules_def addExpandedChildren.simps exCollapsed_def exA_def exC_def)

lemma visible_exExpanded: "getVisibleModules exExpanded = [exA, exB, exD, exC]"
  by (simp add: getVisibleModules_def addExpandedChildren.simps exExpanded_def exCollapsed_def
        exA_def exB_def exC_def exD_def)

text \<open>
  C4. In a well-formed tree, every module of the list returned by \<open>getVisibleModules\<close>
  that is not a root (its level is not 0) has its parent in the list: the list holds a
  module \<open>p\<close> that owns it as a child, whose path is its \<open>parentPath\<close>, and which is the
  module \<open>allModules\<close> gives for that parent path.
\<close>

theorem C4_visible_parent_visible:
  assumes wf: "wellFormed v"
    and vis: "m \<in> set (getVisibleModules v)"
    and nonroot: "level m \<noteq> 0"
  shows "\<exists>p \<in> set (getVisibleModules v).
           m \<in> set (children p) \<and> path p = parentPath m \<and> allModules v (parentPath m) = Some p"
proof -
  from wf nonroot have "m \<notin> set (rootModules v)"
    by (auto simp: wellFormed_def)
  with visible_root_or_child [OF vis] obtain p where
    p: "p \<in> set (getVisibleModules v)" "m \<in> set (children p)"
    by blast
  from p(1) have pn: "p \<in> set (allNodes (rootModules v))"
    using visible_allNodes by blast
  with wf p(2) have pp: "parentPath m = path p"
    by (simp add: wellFormed_def)
  from wellFormed_lookup [OF wf pn] pp have "allModules v (parentPath m) = Some p"
    by simp
  with p pp show ?thesis by auto
qed

theorem C4_visible_parent_visible_witness:
  "\<exists>p \<in> set (getVisibleModules exExpanded).
      exD \<in> set (children p) \<and> path p = parentPath exD
      \<and> allModules exExpanded (parentPath exD) = Some p"
proof -
  have "exD \<in> set (getVisibleModules exExpanded)"
    by (simp add: visible_exExpanded)
  moreover have "level exD \<noteq> 0"
    by (simp add: exD_def)
  ultimately show ?thesis
    using C4_visible_parent_visible [OF wellFormed_exExpanded] by blast
qed

subsection \<open>Collapsing\<close>

lemma collapseModule_expanded:
  "expandedModules (collapseModule m v) = expandedModules v - path ` set (m # descendants m)"
proof (induction m arbitrary: v)
  case (Module n p pp cs l t c)
  have inner: "expandedModules (fold (\<lambda>child v'. collapseModule child v') cs' w)
               = expandedModules w - path ` set (concat (map (\<lambda>child. child # descendants child) cs'))"
    if "set cs' \<subseteq> set cs" for cs' w
    using that
  proof (induction cs' arbitrary: w)
    case Nil
    show ?case by simp
  next
    case (Cons a cs')
    have a: "a \<in> set cs" using Cons.prems by simp
    show ?case using Cons Module.IH [OF a, of w] by auto
  qed
  show ?case using inner [of cs] by auto
qed

lemma concat_cons_nil:
  "(\<And>x. x \<in> set xs \<Longrightarrow> f x = []) \<Longrightarrow> concat (map (\<lambda>x. x # f x) xs) = xs"
  by (induction xs) simp_all

lemma wellFormed_child_path:
  assumes wf: "wellFormed v"
    and m: "m \<in> set (allNodes (rootModules v))"
    and ch: "child \<in> set (children m)"
  shows "path child \<noteq> path m"
proof
  assume eq: "path child = path m"
  from m ch have chn: "child \<in> set (allNodes (rootModules v))"
    using allNodes_closed children_descendants by blast
  from wf have "inj_on path (set (allNodes (rootModules v)))"
    by (simp add: wellFormed_def distinct_map)
  with eq m chn have "child = m" by (auto dest: inj_onD)
  moreover from wf m ch have "level child = level m + 1"
    by (simp add: wellFormed_def)
  ultimately show False by simp
qed

text \<open>
  C5. Toggling a module that has children and whose path is in the expansion set (an
  expanded module) collapses it: the new expansion set is the old one without the
  path of the module and without the path of any of its descendants, expanded or not.
  Toggling the module once more then shows its children and nothing below them.
\<close>

theorem C5_collapse_clears_descendants:
  assumes wf: "wellFormed v"
    and m: "m \<in> set (allNodes (rootModules v))"
    and kids: "children m \<noteq> []"
    and expanded: "path m \<in> expandedModules v"
    and v1: "v1 = v\<lparr>expandedModules := toggleModuleExpansion m v\<rparr>"
    and v2: "v2 = v1\<lparr>expandedModules := toggleModuleExpansion m v1\<rparr>"
  shows "expandedModules v1 = expandedModules v - path ` set (m # descendants m)
       \<and> (\<forall>d \<in> set (m # descendants m). path d \<notin> expandedModules v1)
       \<and> addExpandedChildren v2 m [] = children m"
proof -
  have e1: "expandedModules v1 = expandedModules v - path ` set (m # descendants m)"
    using kids expanded v1 by (simp add: toggleModuleExpansion_def collapseModule_expanded)
  then have gone: "\<forall>d \<in> set (m # descendants m). path d \<notin> expandedModules v1"
    by blast
  have e2: "expandedModules v2 = insert (path m) (expandedModules v1)"
    using kids gone v2 by (simp add: toggleModuleExpansion_def)
  have "addExpandedChildren v2 child [] = []" if "child \<in> set (children m)" for child
  proof -
    from that have "child \<in> set (descendants m)"
      using children_descendants by blast
    with gone have "path child \<notin> expandedModules v1" by simp
    moreover have "path child \<noteq> path m"
      using wellFormed_child_path [OF wf m that] .
    ultimately show ?thesis
      using e2 by (simp add: addExpandedChildren_eq [of v2 child])
  qed
  then have "concat (map (\<lambda>child. child # addExpandedChildren v2 child []) (children m))
             = children m"
    by (simp add: concat_cons_nil)
  then have "addExpandedChildren v2 m [] = children m"
    using e2 by (simp add: addExpandedChildren_eq [of v2 m])
  with e1 gone show ?thesis by blast
qed

theorem C5_collapse_clears_descendants_witness:
  "toggleModuleExpansion exA exExpanded = {}
   \<and> addExpandedChildren
        (exExpanded\<lparr>expandedModules :=
           toggleModuleExpansion exA
             (exExpanded\<lparr>expandedModules := toggleModuleExpansion exA exExpanded\<rparr>)\<rparr>) exA []
      = [exB]"
proof -
  have m: "exA \<in> set (allNodes (rootModules exExpanded))"
    by (simp add: exExpanded_def exCollapsed_def allNodes_def)
  have kids: "children exA \<noteq> []"
    by (simp add: exA_def)
  have expanded: "path exA \<in> expandedModules exExpanded"
    by (simp add: exExpanded_def exA_def)
  have d: "path ` set (exA # descendants exA) = {''A'', ''A/B'', ''A/B/D''}"
    by (auto simp: exA_def exB_def exD_def)
  have e: "expandedModules exExpanded = {''A'', ''A/B''}"
    by (simp add: exExpanded_def)
  have c: "children exA = [exB]"
    by (simp add: exA_def)
  note r = C5_collapse_clears_descendants [OF wellFormed_exExpanded m kids expanded refl refl]
  have "toggleModuleExpansion exA exExpanded
          = expandedModules exExpanded - path ` set (exA # descendants exA)"
    using r [THEN conjunct1] by simp
  moreover have "addExpandedChildren
           (exExpanded\<lparr>expandedModules :=
              toggleModuleExpansion exA
                (exExpanded\<lparr>expandedModules := toggleModuleExpansion exA exExpanded\<rparr>)\<rparr>) exA []
         = children exA"
    using r [THEN conjunct2, THEN conjunct2] by simp
  ultimately show ?thesis
    unfolding d e c by simp
qed

subsection \<open>Connection count\<close>

text \<open>
  C10. The connection count of a module is the length of its own declared connection
  list whenever it has one, whatever its descendants declare; only a module without a
  list of its own counts the sum of its children's counts. A module with one connection
  of its own whose child declares five reports 1.
\<close>

theorem C10_connection_count:
  "(\<forall>conns. connections m = Some conns \<longrightarrow> getConnectionCount m = length conns)
   \<and> (connections m = None \<longrightarrow>
        getConnectionCount m = sum_list (map getConnectionCount (children m)))"
proof (cases m)
  case (Module n p pp cs l t c)
  have "fold (\<lambda>child count. count + getConnectionCount child) cs k
        = k + sum_list (map getConnectionCount cs)" for k
    by (induction cs arbitrary: k) simp_all
  from this [of 0] show ?thesis using Module by (simp split: option.splits)
qed

theorem C10_connection_count_witness:
  "getConnectionCount exOwn = 1
   \<and> sum_list (map getConnectionCount (children exOwn)) = 5
   \<and> getConnectionCount exGroup = 6"
proof -
  have own: "connections exOwn = Some [conn2]" "children exOwn = [exFive]"
    by (simp_all add: exOwn_def)
  have five: "connections exFive = Some [conn1, conn2, conn1, conn2, conn1]"
    by (simp add: exFive_def)
  have b: "connections exB = Some [conn2]"
    by (simp add: exB_def)
  have grp: "connections exGroup = None" "children exGroup = [exFive, exB]"
    by (simp_all add: exGroup_def)
  from C10_connection_count [of exOwn] own have 1: "getConnectionCount exOwn = 1"
    by simp
  from C10_connection_count [of exFive] five have 5: "getConnectionCount exFive = 5"
    by simp
  from C10_connection_count [of exB] b have 2: "getConnectionCount exB = 1"
    by simp
  from C10_connection_count [of exGroup] grp 5 2 have "getConnectionCount exGroup = 6"
    by simp
  with 1 5 own show ?thesis by simp
qed

subsection \<open>Cancelling a drag\<close>

lemma exC_fields: "path exC = ''C''" "parentPath exC = []" "children exC = []"
  by (simp_all add: exC_def)

lemma exRendered_fields:
  "modulePositions exRendered = exBoxes"
  "expandedModules exRendered = {''A'', ''A/B''}"
  "canvasManager exRendered = newCanvasManager"
  "rootModules exRendered = [exA, exC]"
  by (simp_all add: exRendered_def exExpanded_def exCollapsed_def)

lemma exDoc_C:
  "querySelector exDoc ''C'' = Some \<lparr>offsetWidth = 250, offsetHeight = 120,
      boundingClientRect = \<lparr>left = 400, top = 50\<rparr>\<rparr>"
  "containerRect exDoc = \<lparr>left = 0, top = 0\<rparr>"
  by (simp_all add: exDoc_def exBoxes_def)

lemma exBoxes_C: "exBoxes ''C'' = Some \<lparr>box_x = 400, box_y = 50, width = 250, height = 120\<rparr>"
  by (simp add: exBoxes_def)

text \<open>
  \<open>cancelDrag\<close> reads the "original" position from \<open>modulePositions\<close>, the very map every
  drag move has written: it stores the current position again (with the size of the
  element) and moves nothing back.
\<close>

lemma cancelDrag_positions:
  assumes "draggedModule (dragState v) = Some m"
    and "isDragging (dragState v)"
    and "modulePositions v (path m) = Some b"
  shows "modulePositions (cancelDrag doc v) =
           (modulePositions v)(path m \<mapsto>
              \<lparr>box_x = box_x b, box_y = box_y b,
               width = (case querySelector doc (path m) of Some el \<Rightarrow> offsetWidth el | None \<Rightarrow> 250),
               height = (case querySelector doc (path m) of Some el \<Rightarrow> offsetHeight el | None \<Rightarrow> 120)\<rparr>)"
  using assms by (simp add: cancelDrag_def endModuleDrag_def updateModulePosition_def Let_def)

text \<open>
  C9 (the code misses it). The root \<open>C\<close> of the rendered example has its box at (400, 50).
  A drag is started on it with the pointer at (450, 100), one move takes the pointer to
  (510, 130), which stores the box at (460, 80), and the drag is cancelled. The stored
  box is then still at (460, 80), not at the position from before the drag.
\<close>

theorem C9_cancel_keeps_dragged_position:
  "modulePositions exRendered ''C'' = Some \<lparr>box_x = 400, box_y = 50, width = 250, height = 120\<rparr>
   \<and> Option.bind (startModuleDrag exDoc exRendered exC \<lparr>clientX = 450, clientY = 100, button = 2\<rparr>)
        (\<lambda>s1. Option.bind (updateModuleDrag exDoc s1 \<lparr>clientX = 510, clientY = 130, button = 2\<rparr>)
           (\<lambda>s2. Some (modulePositions (cancelDrag exDoc s2) ''C'')))
      = Some (Some \<lparr>box_x = 460, box_y = 80, width = 250, height = 120\<rparr>)"
  by (simp add: startModuleDrag_def updateModuleDrag_def updateModulePosition_def
        updateParentContainer.simps cancelDrag_def endModuleDrag_def screenToWorld_def
        newCanvasManager_def exC_fields exRendered_fields exDoc_C exBoxes_C Let_def)


subsection \<open>Aggregation of connections\<close>

lemma inner_fold_resolved:
  "fold (\<lambda>conn pairs.
           case findTargetModule v (target conn) vis of
             Some tgt \<Rightarrow>
               mapPush (pairKey m tgt) conn
                 (if \<not> mapHas (pairKey m tgt) pairs
                  then mapSet (pairKey m tgt)
                         \<lparr>pair_from = m, pair_to = tgt, pair_connections = []\<rparr> pairs
                  else pairs)
           | None \<Rightarrow> pairs) cs qs
   = fold addResolved (concat (map (\<lambda>conn.
            case findTargetModule v (target conn) vis of
              Some tgt \<Rightarrow> [(m, conn, tgt)]
            | None \<Rightarrow> []) cs)) qs"
  by (induction cs arbitrary: qs) (simp_all add: addResolved_def Let_def split: option.splits)

lemma pairs_fold_resolved:
  "fold (\<lambda>m. fold (\<lambda>conn pairs.
           case findTargetModule v (target conn) vis of
             Some tgt \<Rightarrow>
               mapPush (pairKey m tgt) conn
                 (if \<not> mapHas (pairKey m tgt) pairs
                  then mapSet (pairKey m tgt)
                         \<lparr>pair_from = m, pair_to = tgt, pair_connections = []\<rparr> pairs
                  else pairs)
           | None \<Rightarrow> pairs) (getConnectionsForModule m vis))
     ms ps
   = fold addResolved
       (concat (map (\<lambda>m.
          concat (map (\<lambda>conn.
            case findTargetModule v (target conn) vis of
              Some tgt \<Rightarrow> [(m, conn, tgt)]
            | None \<Rightarrow> [])
            (getConnectionsForModule m vis))) ms)) ps"
proof (induction ms arbitrary: ps)
  case Nil
  show ?case by simp
next
  case (Cons m ms)
  show ?case
    unfolding list.map concat.simps fold_append fold_simps comp_def
    unfolding inner_fold_resolved Cons.IH ..
qed

lemma calculateConnectionPairs_eq:
  "calculateConnectionPairs v vis = map snd (fold addResolved (resolvedConnections v vis) [])"
  unfolding calculateConnectionPairs_def resolvedConnections_def Let_def
  unfolding pairs_fold_resolved ..

lemma map_of_mapSet: "map_of (mapSet k e ps) = (map_of ps)(k \<mapsto> e)"
  by (induction ps) (auto simp: fun_eq_iff)

lemma keys_mapSet_new: "k \<notin> fst ` set ps \<Longrightarrow> map fst (mapSet k e ps) = map fst ps @ [k]"
  by (induction ps) auto

lemma map_of_mapPush:
  "map_of (mapPush k c ps) k' =
     (if k' = k then map_option (\<lambda>e. e\<lparr>pair_connections := pair_connections e @ [c]\<rparr>) (map_of ps k)
      else map_of ps k')"
  by (induction ps) auto

lemma keys_mapPush: "map fst (mapPush k c ps) = map fst ps"
  by (induction ps) auto

lemma keys_addResolved:
  "map fst (addResolved x ps) =
     (if resolvedKey x \<in> fst ` set ps then map fst ps else map fst ps @ [resolvedKey x])"
  by (cases x) (simp add: addResolved_def resolvedKey_def Let_def mapHas_def keys_mapPush keys_mapSet_new)

lemma map_of_addResolved:
  "map_of (addResolved (m, c, t) ps) k =
     (if k = pairKey m t
      then Some (case map_of ps k of
                   Some e \<Rightarrow> e\<lparr>pair_connections := pair_connections e @ [c]\<rparr>
                 | None \<Rightarrow> \<lparr>pair_from = m, pair_to = t, pair_connections = [c]\<rparr>)
      else map_of ps k)"
  by (auto simp: addResolved_def Let_def mapHas_def map_of_mapPush map_of_mapSet
        map_of_eq_None_iff [symmetric] split: option.splits)

lemma distinct_fold_addResolved:
  "distinct (map fst ps) \<Longrightarrow> distinct (map fst (fold addResolved xs ps))"
proof (induction xs arbitrary: ps)
  case Nil then show ?case by simp
next
  case (Cons x xs)
  have "distinct (map fst (addResolved x ps))"
    using Cons.prems by (simp add: keys_addResolved)
  then show ?case using Cons.IH by simp
qed

lemma map_of_fold_addResolved:
  "map_of (fold addResolved xs ps) k =
     (case map_of ps k of
        Some e \<Rightarrow> Some (e\<lparr>pair_connections := pair_connections e
                         @ map (fst \<circ> snd) (filter (\<lambda>x. resolvedKey x = k) xs)\<rparr>)
      | None \<Rightarrow>
          (case filter (\<lambda>x. resolvedKey x = k) xs of
             [] \<Rightarrow> None
           | x # rest \<Rightarrow> Some \<lparr>pair_from = fst x, pair_to = snd (snd x),
                                pair_connections = map (fst \<circ> snd) (x # rest)\<rparr>))"
proof (induction xs arbitrary: ps)
  case Nil
  show ?case by (simp split: option.splits)
next
  case (Cons x xs)
  obtain m c t where x: "x = (m, c, t)" by (cases x) auto
  show ?case
    by (simp add: Cons.IH x map_of_addResolved resolvedKey_def split: option.splits list.splits)
qed


lemma distinct_map_outer: "distinct (map (\<lambda>x. g (f x)) xs) \<Longrightarrow> distinct (map f xs)"
  by (induction xs) auto

lemma pairs_entries:
  assumes "(k, e) \<in> set (fold addResolved xs [])"
  shows "pairKey (pair_from e) (pair_to e) = k
       \<and> pair_connections e = map (fst \<circ> snd) (filter (\<lambda>x. resolvedKey x = k) xs)
       \<and> pair_connections e \<noteq> []"
proof -
  have "distinct (map fst (fold addResolved xs []))"
    by (rule distinct_fold_addResolved) simp
  with assms have "map_of (fold addResolved xs []) k = Some e"
    by simp
  then have *: "(case filter (\<lambda>x. resolvedKey x = k) xs of
             [] \<Rightarrow> None
           | x # rest \<Rightarrow> Some \<lparr>pair_from = fst x, pair_to = snd (snd x),
                                pair_connections = map (fst \<circ> snd) (x # rest)\<rparr>) = Some e"
    by (simp add: map_of_fold_addResolved)
  then obtain x rest where f: "filter (\<lambda>x. resolvedKey x = k) xs = x # rest"
    and e: "e = \<lparr>pair_from = fst x, pair_to = snd (snd x),
                pair_connections = map (fst \<circ> snd) (x # rest)\<rparr>"
    by (auto split: list.splits)
  from f have "x \<in> set (filter (\<lambda>x. resolvedKey x = k) xs)" by simp
  then have "resolvedKey x = k" by simp
  then have "pairKey (pair_from e) (pair_to e) = k"
    using e by (cases x) (simp add: resolvedKey_def)
  with e f show ?thesis by simp
qed

lemma pairs_keys:
  "map (\<lambda>e. pairKey (pair_from e) (pair_to e)) (map snd (fold addResolved xs []))
   = map fst (fold addResolved xs [])"
  using pairs_entries [of _ _ xs] by (auto simp: comp_def)

lemma pairs_cover:
  assumes "x \<in> set xs"
  shows "\<exists>e \<in> set (map snd (fold addResolved xs [])). pairKey (pair_from e) (pair_to e) = resolvedKey x"
proof -
  from assms have "filter (\<lambda>y. resolvedKey y = resolvedKey x) xs \<noteq> []"
    by (auto simp: filter_empty_conv)
  then obtain y rest where "filter (\<lambda>y. resolvedKey y = resolvedKey x) xs = y # rest"
    by (cases "filter (\<lambda>y. resolvedKey y = resolvedKey x) xs") auto
  then obtain e where "map_of (fold addResolved xs []) (resolvedKey x) = Some e"
    by (simp add: map_of_fold_addResolved)
  then have "(resolvedKey x, e) \<in> set (fold addResolved xs [])"
    by (rule map_of_SomeD)
  then show ?thesis
    using pairs_entries [of "resolvedKey x" e xs] by force
qed

text \<open>
  What holds of the aggregation: the pairs returned by \<open>calculateConnectionPairs\<close>
  never hold two entries for the same ordered pair of source path and target path,
  every resolved connection has an entry under its key (the string
  \<open>from.path->to.path\<close>), an entry holds exactly the resolved connections filed under
  its key, in the order the code meets them, and the line thickness is a non-decreasing
  function of the number of connections of the entry, between 2 and 8.
\<close>

lemma pairs_grouped_by_key:
  "distinct (map (\<lambda>e. (path (pair_from e), path (pair_to e))) (calculateConnectionPairs v vis))
   \<and> (\<forall>x \<in> set (resolvedConnections v vis).
         \<exists>e \<in> set (calculateConnectionPairs v vis).
            pairKey (pair_from e) (pair_to e) = resolvedKey x)
   \<and> (\<forall>e \<in> set (calculateConnectionPairs v vis).
         pair_connections e
           = map (fst \<circ> snd)
               (filter (\<lambda>x. resolvedKey x = pairKey (pair_from e) (pair_to e))
                  (resolvedConnections v vis))
         \<and> pair_connections e \<noteq> [])
   \<and> (\<forall>cs cs'. length cs \<le> length cs' \<longrightarrow> thickness cs \<le> thickness cs')
   \<and> (\<forall>cs. 2 \<le> thickness cs \<and> thickness cs \<le> 8)"
proof -
  let ?xs = "resolvedConnections v vis"
  let ?ps = "fold addResolved ?xs []"
  have res: "calculateConnectionPairs v vis = map snd ?ps"
    by (rule calculateConnectionPairs_eq)
  have "distinct (map fst ?ps)"
    by (rule distinct_fold_addResolved) simp
  then have "distinct (map (\<lambda>e. pairKey (pair_from e) (pair_to e)) (map snd ?ps))"
    by (simp only: pairs_keys)
  then have "distinct (map (\<lambda>e. path (pair_from e) @ ''->'' @ path (pair_to e)) (map snd ?ps))"
    by (simp add: pairKey_def)
  then have 1: "distinct (map (\<lambda>e. (path (pair_from e), path (pair_to e))) (map snd ?ps))"
    using distinct_map_outer
      [of "\<lambda>p. fst p @ ''->'' @ snd p" "\<lambda>e. (path (pair_from e), path (pair_to e))" "map snd ?ps"]
    by simp
  have 2: "\<forall>x \<in> set ?xs. \<exists>e \<in> set (map snd ?ps). pairKey (pair_from e) (pair_to e) = resolvedKey x"
    using pairs_cover by blast
  have 3: "\<forall>e \<in> set (map snd ?ps).
         pair_connections e
           = map (fst \<circ> snd) (filter (\<lambda>x. resolvedKey x = pairKey (pair_from e) (pair_to e)) ?xs)
         \<and> pair_connections e \<noteq> []"
  proof
    fix e assume "e \<in> set (map snd ?ps)"
    then obtain k where "(k, e) \<in> set ?ps" by auto
    from pairs_entries [OF this]
    have a: "pairKey (pair_from e) (pair_to e) = k"
      and b: "pair_connections e = map (fst \<circ> snd) (filter (\<lambda>x. resolvedKey x = k) ?xs)"
      and c: "pair_connections e \<noteq> []"
      by blast+
    show "pair_connections e
           = map (fst \<circ> snd) (filter (\<lambda>x. resolvedKey x = pairKey (pair_from e) (pair_to e)) ?xs)
         \<and> pair_connections e \<noteq> []"
      unfolding a using b c by blast
  qed
  have 4: "\<forall>cs cs'. length cs \<le> length cs' \<longrightarrow> thickness cs \<le> thickness cs'"
    by (auto simp: thickness_def)
  have 5: "\<forall>cs. 2 \<le> thickness cs \<and> thickness cs \<le> 8"
    by (auto simp: thickness_def)
  from 1 2 3 4 5 show ?thesis
    unfolding res by blast
qed

text \<open>The four roots form a well-formed tree.\<close>

lemma wellFormed_exKeys: "wellFormed exKeys"
  by (simp add: wellFormed_def exKeys_def allNodes_def kA_def kAB_def kBC_def kC_def)

lemma visible_exKeys: "getVisibleModules exKeys = [kA, kAB, kBC, kC]"
  by (simp add: getVisibleModules_def addExpandedChildren.simps exKeys_def
        kA_def kAB_def kBC_def kC_def)

lemma resolved_exKeys:
  "resolvedConnections exKeys [kA, kAB, kBC, kC] = [(kA, keyConn1, kBC), (kAB, keyConn2, kC)]"
  by (simp add: resolvedConnections_def findTargetModule_def startsWith_def lastComponent_def
        exKeys_def allNodes_def kA_def kAB_def kBC_def kC_def keyConn1_def keyConn2_def)

text \<open>
  C8 (the code misses it). Grouping is by the key string, and the key does not determine
  the pair. With the roots \<open>a\<close>, \<open>a->b\<close>, \<open>b->c\<close> and \<open>c\<close>, where \<open>a\<close> declares a
  connection to \<open>b->c\<close> and \<open>a->b\<close> one to \<open>c\<close>, the two connections resolve to two
  different pairs of paths, both with the key \<open>a->b->c\<close>. The code returns a single
  entry from \<open>a\<close> to \<open>b->c\<close> that holds both connections; the pair from \<open>a->b\<close> to
  \<open>c\<close> has no entry.
\<close>

theorem C8_key_collision_merges_pairs:
  "resolvedConnections exKeys (getVisibleModules exKeys)
       = [(kA, keyConn1, kBC), (kAB, keyConn2, kC)]
   \<and> (path kA, path kBC) \<noteq> (path kAB, path kC)
   \<and> calculateConnectionPairs exKeys (getVisibleModules exKeys)
       = [\<lparr>pair_from = kA, pair_to = kBC, pair_connections = [keyConn1, keyConn2]\<rparr>]"
proof -
  have k: "pairKey kA kBC = ''a->b->c''" "pairKey kAB kC = ''a->b->c''"
    by (simp_all add: pairKey_def kA_def kAB_def kBC_def kC_def)
  have p: "(path kA, path kBC) \<noteq> (path kAB, path kC)"
    by (simp add: kA_def kAB_def)
  have "calculateConnectionPairs exKeys [kA, kAB, kBC, kC]
       = [\<lparr>pair_from = kA, pair_to = kBC, pair_connections = [keyConn1, keyConn2]\<rparr>]"
    unfolding calculateConnectionPairs_eq resolved_exKeys
    by (simp add: addResolved_def mapHas_def Let_def k)
  with resolved_exKeys p show ?thesis
    by (simp add: visible_exKeys)
qed

subsection \<open>Dragging a container\<close>

lemma shiftBoxes_empty [simp]: "shiftBoxes {} dx dy pos = pos"
  by (simp add: shiftBoxes_def)

lemma dom_shiftBoxes [simp]: "dom (shiftBoxes S dx dy pos) = dom pos"
  by (auto simp: shiftBoxes_def dom_def split: if_splits)

lemma shiftBoxes_union:
  "S1 \<inter> S2 = {} \<Longrightarrow> shiftBoxes S2 dx dy (shiftBoxes S1 dx dy pos) = shiftBoxes (S1 \<union> S2) dx dy pos"
  by (auto simp: shiftBoxes_def fun_eq_iff)

lemma shiftBoxes_single:
  "pos q = Some b \<Longrightarrow> pos(q \<mapsto> translateBox dx dy b) = shiftBoxes {q} dx dy pos"
  by (auto simp: shiftBoxes_def fun_eq_iff)

lemma reach_subset: "set (reach vis E D m) \<subseteq> set (descendants m) \<inter> set vis"
proof (induction m)
  case (Module n p pp cs l t c)
  show ?case
  proof
    fix x assume "x \<in> set (reach vis E D (Module n p pp cs l t c))"
    then obtain ch where ch: "ch \<in> set cs" "ch \<in> set vis"
        "x = ch \<or> x \<in> set (reach vis E D ch)"
      by (auto split: if_splits)
    with Module.IH [OF ch(1)] show "x \<in> set (descendants (Module n p pp cs l t c)) \<inter> set vis"
      by auto
  qed
qed

lemma moveChildren_eq:
  "distinct (map path (descendants m)) \<Longrightarrow>
   moveChildren vis dx dy m w =
     w\<lparr>modulePositions :=
        shiftBoxes (path ` set (reach vis (expandedModules w) (dom (modulePositions w)) m))
          dx dy (modulePositions w)\<rparr>"
proof (induction m arbitrary: w)
  case (Module n p pp cs l t c)
  let ?step = "\<lambda>child v.
             if child \<in> set vis then
               (case modulePositions v (path child) of
                  Some childPos \<Rightarrow>
                    (let newChildPos = \<lparr>box_x = box_x childPos + dx,
                                         box_y = box_y childPos + dy,
                                         width = width childPos,
                                         height = height childPos\<rparr>;
                         v1 = v\<lparr>modulePositions := (modulePositions v)(path child \<mapsto> newChildPos)\<rparr>
                     in if path child \<in> expandedModules v1
                        then moveChildren vis dx dy child v1
                        else v1)
                | None \<Rightarrow> v)
             else v"
  let ?part = "\<lambda>E D child.
        if child \<in> set vis \<and> path child \<in> D
        then child # (if path child \<in> E then reach vis E D child else [])
        else []"
  have step: "?step a w = w\<lparr>modulePositions :=
                 shiftBoxes (path ` set (?part (expandedModules w) (dom (modulePositions w)) a))
                   dx dy (modulePositions w)\<rparr>"
    if a: "a \<in> set cs" and da: "distinct (map path (a # descendants a))" for a w
  proof (cases "a \<in> set vis \<and> path a \<in> dom (modulePositions w)")
    case False
    then show ?thesis by (auto simp: dom_def split: option.splits)
  next
    case True
    then obtain b where b: "modulePositions w (path a) = Some b" by auto
    let ?v1 = "w\<lparr>modulePositions := (modulePositions w)(path a \<mapsto> translateBox dx dy b)\<rparr>"
    have v1: "?v1 = w\<lparr>modulePositions := shiftBoxes {path a} dx dy (modulePositions w)\<rparr>"
      using shiftBoxes_single [of "modulePositions w" "path a" b dx dy] b by simp
    show ?thesis
    proof (cases "path a \<in> expandedModules w")
      case False
      then show ?thesis using True b v1 by (simp add: translateBox_def Let_def)
    next
      case ex: True
      from da have d2: "distinct (map path (descendants a))" by simp
      have notin: "path a \<notin> path ` set (reach vis (expandedModules w) (dom (modulePositions w)) a)"
        using da reach_subset [of vis "expandedModules w" "dom (modulePositions w)" a] by auto
      have "moveChildren vis dx dy a ?v1 =
            ?v1\<lparr>modulePositions :=
              shiftBoxes (path ` set (reach vis (expandedModules ?v1) (dom (modulePositions ?v1)) a))
                dx dy (modulePositions ?v1)\<rparr>"
        by (rule Module.IH [OF a d2])
      also have "\<dots> = w\<lparr>modulePositions :=
              shiftBoxes (path ` set (reach vis (expandedModules w) (dom (modulePositions w)) a))
                dx dy (shiftBoxes {path a} dx dy (modulePositions w))\<rparr>"
        unfolding v1 by simp
      also have "\<dots> = w\<lparr>modulePositions :=
              shiftBoxes (insert (path a) (path ` set (reach vis (expandedModules w) (dom (modulePositions w)) a)))
                dx dy (modulePositions w)\<rparr>"
        using notin by (simp add: shiftBoxes_union)
      finally show ?thesis using True b ex by (simp add: translateBox_def Let_def)
    qed
  qed
  have inner: "fold ?step cs' w = w\<lparr>modulePositions :=
                 shiftBoxes (path ` set (concat (map (?part (expandedModules w) (dom (modulePositions w))) cs')))
                   dx dy (modulePositions w)\<rparr>"
    if "set cs' \<subseteq> set cs" and "distinct (map path (concat (map (\<lambda>c. c # descendants c) cs')))"
    for cs' w
    using that
  proof (induction cs' arbitrary: w)
    case Nil
    show ?case by simp
  next
    case (Cons a rest)
    let ?E = "expandedModules w" and ?D = "dom (modulePositions w)"
    have a: "a \<in> set cs" using Cons.prems(1) by simp
    have da: "distinct (map path (a # descendants a))" using Cons.prems(2) by simp
    have dr: "distinct (map path (concat (map (\<lambda>c. c # descendants c) rest)))"
      using Cons.prems(2) by simp
    have disj: "path ` set (a # descendants a)
                \<inter> path ` set (concat (map (\<lambda>c. c # descendants c) rest)) = {}"
      using Cons.prems(2) by auto
    let ?w1 = "?step a w"
    have w1: "?w1 = w\<lparr>modulePositions := shiftBoxes (path ` set (?part ?E ?D a)) dx dy (modulePositions w)\<rparr>"
      by (rule step [OF a da])
    have subA: "set (?part ?E ?D a) \<subseteq> set (a # descendants a)"
      using reach_subset [of vis ?E ?D a] by auto
    have subR: "set (concat (map (?part ?E ?D) rest)) \<subseteq> set (concat (map (\<lambda>c. c # descendants c) rest))"
      using reach_subset [of vis ?E ?D] by (auto split: if_splits)
    have d: "path ` set (?part ?E ?D a) \<inter> path ` set (concat (map (?part ?E ?D) rest)) = {}"
      using disj subA subR by blast
    have "fold ?step (a # rest) w = fold ?step rest ?w1" by simp
    also have "\<dots> = ?w1\<lparr>modulePositions :=
                 shiftBoxes (path ` set (concat (map (?part (expandedModules ?w1) (dom (modulePositions ?w1))) rest)))
                   dx dy (modulePositions ?w1)\<rparr>"
      using Cons.IH [of ?w1] Cons.prems(1) dr by simp
    also have "\<dots> = w\<lparr>modulePositions :=
                 shiftBoxes (path ` set (concat (map (?part ?E ?D) rest)))
                   dx dy (shiftBoxes (path ` set (?part ?E ?D a)) dx dy (modulePositions w))\<rparr>"
      unfolding w1 by simp
    also have "\<dots> = w\<lparr>modulePositions :=
                 shiftBoxes (path ` set (?part ?E ?D a) \<union> path ` set (concat (map (?part ?E ?D) rest)))
                   dx dy (modulePositions w)\<rparr>"
      using d by (simp add: shiftBoxes_union)
    finally show ?case by (simp add: image_Un)
  qed
  have "distinct (map path (concat (map (\<lambda>c. c # descendants c) cs)))"
    using Module.prems by simp
  from inner [OF subset_refl this, of w] show ?case by simp
qed


lemma addExpandedChildren_cong:
  "expandedModules w = expandedModules v \<Longrightarrow> addExpandedChildren w m vl = addExpandedChildren v m vl"
proof (induction m arbitrary: vl)
  case (Module n p pp cs l t c)
  have "map (\<lambda>child. child # addExpandedChildren w child []) cs
        = map (\<lambda>child. child # addExpandedChildren v child []) cs"
    by (rule map_cong [OF refl]) (simp add: Module.IH [OF _ Module.prems])
  then have "concat (map (\<lambda>child. child # addExpandedChildren w child []) cs)
        = concat (map (\<lambda>child. child # addExpandedChildren v child []) cs)"
    by (rule arg_cong)
  then show ?case
    unfolding addExpandedChildren_eq [of w "Module n p pp cs l t c"]
      addExpandedChildren_eq [of v "Module n p pp cs l t c"] module.sel Module.prems
    by (rule arg_cong)
qed

lemma getVisibleModules_cong:
  "rootModules w = rootModules v \<Longrightarrow> expandedModules w = expandedModules v \<Longrightarrow>
   getVisibleModules w = getVisibleModules v"
  by (simp add: getVisibleModules_eq addExpandedChildren_cong [of w v])

lemma descendants_size: "x \<in> set (descendants y) \<Longrightarrow> size x < size y"
proof (induction y)
  case (Module n p pp cs l t c)
  from Module.prems obtain ch where ch: "ch \<in> set cs" "x = ch \<or> x \<in> set (descendants ch)"
    by auto
  have "size ch \<le> size_list size cs"
    using ch(1) by (simp add: size_list_estimation')
  moreover have "size x \<le> size ch"
    using ch Module.IH [OF ch(1)] by auto
  ultimately show ?case by simp
qed

lemma descendants_parent:
  "x \<in> set (descendants r) \<Longrightarrow> \<exists>par \<in> set (r # descendants r). x \<in> set (children par)"
proof (induction r)
  case (Module n p pp cs l t c)
  from Module.prems obtain ch where ch: "ch \<in> set cs" "x = ch \<or> x \<in> set (descendants ch)"
    by auto
  from ch(2) show ?case
  proof
    assume "x = ch" then show ?thesis using ch(1) by simp
  next
    assume "x \<in> set (descendants ch)"
    from Module.IH [OF ch(1) this] obtain par where
      "par \<in> set (ch # descendants ch)" "x \<in> set (children par)" by blast
    then show ?thesis using ch(1) by auto
  qed
qed

lemma allNodes_parent:
  assumes "x \<in> set (allNodes roots)"
  shows "x \<in> set roots \<or> (\<exists>par \<in> set (allNodes roots). x \<in> set (children par))"
proof -
  from assms obtain r where r: "r \<in> set roots" "x = r \<or> x \<in> set (descendants r)"
    by (auto simp: allNodes_def)
  from r(2) show ?thesis
  proof
    assume "x = r" then show ?thesis using r(1) by simp
  next
    assume "x \<in> set (descendants r)"
    from descendants_parent [OF this] obtain par where
      "par \<in> set (r # descendants r)" "x \<in> set (children par)" by blast
    then show ?thesis using r(1) by (auto simp: allNodes_def)
  qed
qed

lemma wellFormed_inj:
  "wellFormed v \<Longrightarrow> inj_on path (set (allNodes (rootModules v)))"
  by (simp add: wellFormed_def distinct_map)

lemma wellFormed_parent_unique:
  assumes wf: "wellFormed v"
    and c: "c \<in> set (allNodes (rootModules v))"
    and p: "p \<in> set (allNodes (rootModules v))"
    and d: "d \<in> set (children c)"
    and pp: "parentPath d = path p"
  shows "p = c"
proof -
  from wf c d have "parentPath d = path c" by (simp add: wellFormed_def)
  with pp have "path p = path c" by simp
  with wellFormed_inj [OF wf] c p show ?thesis by (auto dest: inj_onD)
qed

lemma visible_parent:
  assumes wf: "wellFormed v"
    and vis: "d \<in> set (getVisibleModules v)"
    and c: "c \<in> set (allNodes (rootModules v))"
    and d: "d \<in> set (children c)"
  shows "c \<in> set (getVisibleModules v) \<and> path c \<in> expandedModules v"
proof -
  from wf c d have "level d = level c + 1" by (simp add: wellFormed_def)
  with wf have "d \<notin> set (rootModules v)" by (auto simp: wellFormed_def)
  with visible_root_or_child [OF vis] obtain p where
    p: "p \<in> set (getVisibleModules v)" "d \<in> set (children p)" "path p \<in> expandedModules v"
    by blast
  from p(1) have pn: "p \<in> set (allNodes (rootModules v))"
    using visible_allNodes by blast
  from wf pn p(2) have "parentPath d = path p" by (simp add: wellFormed_def)
  from wellFormed_parent_unique [OF wf c pn d this] p show ?thesis by simp
qed

lemma visible_ancestors:
  assumes wf: "wellFormed v"
    and vis: "d \<in> set (getVisibleModules v)"
  shows "c \<in> set (allNodes (rootModules v)) \<Longrightarrow> d \<in> set (descendants c) \<Longrightarrow>
         c \<in> set (getVisibleModules v) \<and> path c \<in> expandedModules v"
proof (induction c)
  case (Module n p pp cs l t k)
  let ?c = "Module n p pp cs l t k"
  from Module.prems(2) obtain ch where ch: "ch \<in> set cs" "d = ch \<or> d \<in> set (descendants ch)"
    by auto
  have chn: "ch \<in> set (allNodes (rootModules v))"
    using allNodes_closed [OF Module.prems(1)] children_descendants [of ?c] ch(1) by auto
  have "ch \<in> set (getVisibleModules v)"
    using ch(2) vis Module.IH [OF ch(1) chn] by auto
  from visible_parent [OF wf this Module.prems(1)] ch(1) show ?case by simp
qed

lemma reach_visible:
  assumes wf: "wellFormed v"
    and D: "path ` set (getVisibleModules v) \<subseteq> D"
  shows "m \<in> set (allNodes (rootModules v)) \<Longrightarrow> d \<in> set (descendants m) \<Longrightarrow>
         d \<in> set (getVisibleModules v) \<Longrightarrow>
         d \<in> set (reach (getVisibleModules v) (expandedModules v) D m)"
proof (induction m)
  case (Module n p pp cs l t k)
  let ?m = "Module n p pp cs l t k"
  from Module.prems(2) obtain ch where ch: "ch \<in> set cs" "d = ch \<or> d \<in> set (descendants ch)"
    by auto
  have chn: "ch \<in> set (allNodes (rootModules v))"
    using allNodes_closed [OF Module.prems(1)] children_descendants [of ?m] ch(1) by auto
  from ch(2) show ?case
  proof
    assume "d = ch"
    then show ?thesis using ch(1) Module.prems(3) D by auto
  next
    assume dd: "d \<in> set (descendants ch)"
    from visible_ancestors [OF wf Module.prems(3) chn dd]
    have cv: "ch \<in> set (getVisibleModules v)" "path ch \<in> expandedModules v" by simp_all
    from Module.IH [OF ch(1) chn dd Module.prems(3)]
    have "d \<in> set (reach (getVisibleModules v) (expandedModules v) D ch)" .
    then show ?thesis using ch(1) cv D by auto
  qed
qed

lemma reach_visible_eq:
  assumes "wellFormed v" "path ` set (getVisibleModules v) \<subseteq> D" "m \<in> set (allNodes (rootModules v))"
  shows "set (reach (getVisibleModules v) (expandedModules v) D m)
         = set (descendants m) \<inter> set (getVisibleModules v)"
  using reach_subset [of "getVisibleModules v" "expandedModules v" D m]
    reach_visible [OF assms(1,2,3)] by blast

lemma distinct_concat_part:
  "distinct (concat (map f xs)) \<Longrightarrow> x \<in> set xs \<Longrightarrow> distinct (f x)"
  by (induction xs) auto

lemma distinct_descendants_sub:
  "distinct (map path (descendants r)) \<Longrightarrow> x \<in> set (descendants r) \<Longrightarrow>
   distinct (map path (descendants x))"
proof (induction r)
  case (Module n p pp cs l t c)
  from Module.prems(2) obtain ch where ch: "ch \<in> set cs" "x = ch \<or> x \<in> set (descendants ch)"
    by auto
  have "distinct (concat (map (\<lambda>c. map path (c # descendants c)) cs))"
    using Module.prems(1) by (simp add: map_concat comp_def)
  from distinct_concat_part [OF this ch(1)]
  have d: "distinct (map path (descendants ch))" by simp
  from ch(2) show ?case
  proof
    assume "x = ch" then show ?thesis using d by simp
  next
    assume "x \<in> set (descendants ch)"
    from Module.IH [OF ch(1) d this] show ?thesis .
  qed
qed

lemma wellFormed_distinct_descendants:
  assumes wf: "wellFormed v" and m: "m \<in> set (allNodes (rootModules v))"
  shows "distinct (map path (descendants m))"
proof -
  from m obtain r where r: "r \<in> set (rootModules v)" "m = r \<or> m \<in> set (descendants r)"
    by (auto simp: allNodes_def)
  from wf have "distinct (concat (map (\<lambda>r. map path (r # descendants r)) (rootModules v)))"
    by (simp add: wellFormed_def allNodes_def map_concat comp_def)
  from distinct_concat_part [OF this r(1)]
  have "distinct (map path (descendants r))" by simp
  with r(2) show ?thesis using distinct_descendants_sub by blast
qed

lemma wellFormed_not_own_descendant:
  assumes wf: "wellFormed v" and a: "a \<in> set (allNodes (rootModules v))"
    and d: "d \<in> set (descendants a)"
  shows "path d \<noteq> path a"
proof
  assume eq: "path d = path a"
  from a d have "d \<in> set (allNodes (rootModules v))"
    using allNodes_closed by blast
  with wellFormed_inj [OF wf] a eq have "d = a" by (auto dest: inj_onD)
  with descendants_size [OF d] show False by simp
qed


lemma translateBox_zero [simp]: "translateBox 0 0 b = b"
  by (simp add: translateBox_def)

lemma shiftBoxes_zero [simp]: "shiftBoxes S 0 0 pos = pos"
proof -
  have "map_option (translateBox 0 0) x = x" for x
    by (cases x) simp_all
  then show ?thesis by (simp add: shiftBoxes_def fun_eq_iff)
qed

lemma wellFormed_cong:
  "rootModules w = rootModules v \<Longrightarrow> allModules w = allModules v \<Longrightarrow> wellFormed w = wellFormed v"
  by (simp add: wellFormed_def)

lemma updateModulePosition_eq:
  assumes wf: "wellFormed v"
    and m: "m \<in> set (allNodes (rootModules v))"
    and b: "modulePositions v (path m) = Some b"
    and ex: "path m \<in> expandedModules v"
  shows "updateModulePosition doc v m worldPos =
     v\<lparr>modulePositions :=
        shiftBoxes (path ` set (reach (getVisibleModules v) (expandedModules v)
                                  (dom (modulePositions v)) m))
          (px worldPos - box_x b) (py worldPos - box_y b)
          ((modulePositions v)(path m \<mapsto>
              \<lparr>box_x = px worldPos, box_y = py worldPos,
               width = (case querySelector doc (path m) of Some el \<Rightarrow> offsetWidth el | None \<Rightarrow> 250),
               height = (case querySelector doc (path m) of Some el \<Rightarrow> offsetHeight el | None \<Rightarrow> 120)\<rparr>))\<rparr>"
proof -
  let ?nb = "\<lparr>box_x = px worldPos, box_y = py worldPos,
               width = (case querySelector doc (path m) of Some el \<Rightarrow> offsetWidth el | None \<Rightarrow> 250),
               height = (case querySelector doc (path m) of Some el \<Rightarrow> offsetHeight el | None \<Rightarrow> 120)\<rparr>"
  let ?v0 = "v\<lparr>modulePositions := (modulePositions v)(path m \<mapsto> ?nb)\<rparr>"
  let ?dx = "px worldPos - box_x b" and ?dy = "py worldPos - box_y b"
  have vis0: "getVisibleModules ?v0 = getVisibleModules v"
    by (rule getVisibleModules_cong) simp_all
  have dom0: "dom (modulePositions ?v0) = dom (modulePositions v)"
    using b by auto
  have mv: "moveAllDescendants ?v0 m ?dx ?dy =
      v\<lparr>modulePositions :=
        shiftBoxes (path ` set (reach (getVisibleModules v) (expandedModules v)
                                  (dom (modulePositions v)) m)) ?dx ?dy
          ((modulePositions v)(path m \<mapsto> ?nb))\<rparr>"
    unfolding moveAllDescendants_def Let_def vis0
    using moveChildren_eq [OF wellFormed_distinct_descendants [OF wf m],
        of "getVisibleModules v" ?dx ?dy ?v0] dom0
    by simp
  show ?thesis
  proof (cases "?dx \<noteq> 0 \<or> ?dy \<noteq> 0")
    case True
    then show ?thesis
      using b ex mv by (simp add: updateModulePosition_def Let_def)
  next
    case False
    then show ?thesis
      using b ex by (simp add: updateModulePosition_def Let_def)
  qed
qed

lemma recalculateParentBounds_frame:
  "allModules (recalculateParentBounds doc v p) = allModules v
   \<and> expandedModules (recalculateParentBounds doc v p) = expandedModules v
   \<and> rootModules (recalculateParentBounds doc v p) = rootModules v
   \<and> (\<forall>q. q \<noteq> path p \<longrightarrow>
         modulePositions (recalculateParentBounds doc v p) q = modulePositions v q)"
  by (simp add: recalculateParentBounds_def Let_def split: option.splits prod.splits)

lemma updateParentContainer_frame:
  "wellFormed v \<Longrightarrow> cur \<in> set (allNodes (rootModules v)) \<Longrightarrow> level cur = n \<Longrightarrow>
   \<exists>v'. updateParentContainer doc cur v = Some v'
       \<and> (\<forall>q. q \<notin> path ` {a \<in> set (allNodes (rootModules v)). cur \<in> set (descendants a)}
              \<longrightarrow> modulePositions v' q = modulePositions v q)"
proof (induction n arbitrary: cur v rule: less_induct)
  case (less n)
  note wf = less.prems(1) and cur = less.prems(2)
  show ?case
  proof (cases "parentPath cur \<noteq> []")
    case False
    then show ?thesis by (subst updateParentContainer.simps) simp
  next
    case pp: True
    show ?thesis
    proof (cases "allModules v (parentPath cur)")
      case None
      then show ?thesis using pp by (subst updateParentContainer.simps) simp
    next
      case (Some parent)
      show ?thesis
      proof (cases "path parent \<in> expandedModules v")
        case False
        then show ?thesis using pp Some by (subst updateParentContainer.simps) simp
      next
        case ex: True
        let ?v1 = "recalculateParentBounds doc v parent"
        from wf Some have f: "find (\<lambda>m. path m = parentPath cur) (allNodes (rootModules v)) = Some parent"
          by (simp add: wellFormed_def)
        then have pn: "parent \<in> set (allNodes (rootModules v))"
          and ppath: "path parent = parentPath cur"
          by (auto simp: find_Some_iff)
        from wf pp have "cur \<notin> set (rootModules v)"
          by (auto simp: wellFormed_def)
        with allNodes_parent [OF cur] obtain par where
          par: "par \<in> set (allNodes (rootModules v))" "cur \<in> set (children par)"
          by blast
        from wellFormed_parent_unique [OF wf par(1) pn par(2) ppath [symmetric]]
        have child: "cur \<in> set (children parent)" using par(2) by simp
        from wf pn child have lv: "level parent < n"
          using less.prems(3) by (simp add: wellFormed_def)
        note fr = recalculateParentBounds_frame [of doc v parent]
        have wf1: "wellFormed ?v1"
          using wf wellFormed_cong [of ?v1 v] fr by simp
        have pn1: "parent \<in> set (allNodes (rootModules ?v1))"
          using pn fr by simp
        from less.IH [OF lv wf1 pn1 refl] obtain v' where
          v': "updateParentContainer doc parent ?v1 = Some v'"
          and keep: "\<forall>q. q \<notin> path ` {a \<in> set (allNodes (rootModules ?v1)). parent \<in> set (descendants a)}
              \<longrightarrow> modulePositions v' q = modulePositions ?v1 q"
          by blast
        have run: "updateParentContainer doc cur v = Some v'"
          using pp Some ex v' by (subst updateParentContainer.simps) simp
        have cd: "cur \<in> set (descendants parent)"
          using child children_descendants by blast
        have "modulePositions v' q = modulePositions v q"
          if q: "q \<notin> path ` {a \<in> set (allNodes (rootModules v)). cur \<in> set (descendants a)}" for q
        proof -
          have 1: "q \<noteq> path parent" using q pn cd by auto
          have "q \<notin> path ` {a \<in> set (allNodes (rootModules ?v1)). parent \<in> set (descendants a)}"
          proof
            assume "q \<in> path ` {a \<in> set (allNodes (rootModules ?v1)). parent \<in> set (descendants a)}"
            then obtain a where a: "a \<in> set (allNodes (rootModules v))" "parent \<in> set (descendants a)"
              "q = path a" using fr by auto
            from descendants_trans [OF a(2)] cd have "cur \<in> set (descendants a)" by blast
            with a q show False by blast
          qed
          with keep have "modulePositions v' q = modulePositions ?v1 q" by blast
          with 1 fr show ?thesis by simp
        qed
        with run show ?thesis by blast
      qed
    qed
  qed
qed


lemma wellFormed_not_ancestor_path:
  assumes wf: "wellFormed v" and x: "x \<in> set (allNodes (rootModules v))"
    and xm: "x = m \<or> x \<in> set (descendants m)"
  shows "path x \<notin> path ` {a \<in> set (allNodes (rootModules v)). m \<in> set (descendants a)}"
proof
  assume "path x \<in> path ` {a \<in> set (allNodes (rootModules v)). m \<in> set (descendants a)}"
  then obtain a where a: "a \<in> set (allNodes (rootModules v))" "m \<in> set (descendants a)"
    "path x = path a" by auto
  with wellFormed_inj [OF wf] x have "x = a" by (auto dest: inj_onD)
  with a(2) have mx: "m \<in> set (descendants x)" by simp
  from xm show False
  proof
    assume "x = m" with mx descendants_size [of m m] show False by simp
  next
    assume "x \<in> set (descendants m)"
    with mx descendants_size [of m x] descendants_size [of x m] show False by simp
  qed
qed

text \<open>
  C6, amended. In a well-formed tree where every visible module has a stored box (as
  after a render), a drag move on a visible, expanded container \<open>m\<close> that takes its box
  from \<open>(x, y)\<close> to \<open>(x + dx, y + dy)\<close> completes, stores the container at the new
  position, translates the stored box of every visible descendant of \<open>m\<close> by exactly
  \<open>(dx, dy)\<close> with its size unchanged, and leaves unchanged the stored box of every
  path that belongs neither to \<open>m\<close>, nor to a visible descendant of \<open>m\<close>, nor to an
  ancestor of \<open>m\<close> (the cascade recomputes the boxes of the expanded ancestors).
\<close>

theorem C6_drag_moves_visible_descendants:
  assumes wf: "wellFormed v"
    and drag: "draggedModule (dragState v) = Some m" "isDragging (dragState v)"
    and vis: "m \<in> set (getVisibleModules v)"
    and ex: "path m \<in> expandedModules v"
    and boxes: "\<forall>x \<in> set (getVisibleModules v). modulePositions v (path x) \<noteq> None"
    and b: "modulePositions v (path m) = Some b"
    and wp: "worldPos = screenToWorld (canvasManager v)
               (clientX ev - left (containerRect doc) - px (offset (dragState v)))
               (clientY ev - top (containerRect doc) - py (offset (dragState v)))"
    and dx: "dx = px worldPos - box_x b"
    and dy: "dy = py worldPos - box_y b"
  shows "\<exists>v'. updateModuleDrag doc v ev = Some v'
     \<and> (\<exists>bm. modulePositions v' (path m) = Some bm
            \<and> box_x bm = box_x b + dx \<and> box_y bm = box_y b + dy)
     \<and> (\<forall>d \<in> set (descendants m) \<inter> set (getVisibleModules v).
           \<exists>bd. modulePositions v (path d) = Some bd
              \<and> modulePositions v' (path d)
                  = Some \<lparr>box_x = box_x bd + dx, box_y = box_y bd + dy,
                          width = width bd, height = height bd\<rparr>)
     \<and> (\<forall>q. q \<noteq> path m
            \<and> q \<notin> path ` (set (descendants m) \<inter> set (getVisibleModules v))
            \<and> q \<notin> path ` {a \<in> set (allNodes (rootModules v)). m \<in> set (descendants a)}
          \<longrightarrow> modulePositions v' q = modulePositions v q)"
proof -
  let ?vis = "getVisibleModules v"
  let ?nb = "\<lparr>box_x = px worldPos, box_y = py worldPos,
               width = (case querySelector doc (path m) of Some el \<Rightarrow> offsetWidth el | None \<Rightarrow> 250),
               height = (case querySelector doc (path m) of Some el \<Rightarrow> offsetHeight el | None \<Rightarrow> 120)\<rparr>"
  let ?S = "path ` (set (descendants m) \<inter> set ?vis)"
  let ?A = "path ` {a \<in> set (allNodes (rootModules v)). m \<in> set (descendants a)}"
  let ?v1 = "updateModulePosition doc v m worldPos"
  have mn: "m \<in> set (allNodes (rootModules v))"
    using vis visible_allNodes by blast
  have D: "path ` set ?vis \<subseteq> dom (modulePositions v)"
    using boxes by auto
  have v1: "?v1 = v\<lparr>modulePositions := shiftBoxes ?S dx dy ((modulePositions v)(path m \<mapsto> ?nb))\<rparr>"
    unfolding updateModulePosition_eq [OF wf mn b ex] reach_visible_eq [OF wf D mn] dx dy ..
  have pos1: "modulePositions ?v1 = shiftBoxes ?S dx dy ((modulePositions v)(path m \<mapsto> ?nb))"
    unfolding v1 by simp
  have wf1: "wellFormed ?v1"
    unfolding v1 using wf wellFormed_cong [of "v\<lparr>modulePositions := shiftBoxes ?S dx dy ((modulePositions v)(path m \<mapsto> ?nb))\<rparr>" v]
    by simp
  have roots1: "rootModules ?v1 = rootModules v"
    unfolding v1 by simp
  have mn1: "m \<in> set (allNodes (rootModules ?v1))"
    using mn roots1 by simp
  from updateParentContainer_frame [OF wf1 mn1 refl, of doc] obtain v' where
    run: "updateParentContainer doc m ?v1 = Some v'"
    and keep: "\<forall>q. q \<notin> ?A \<longrightarrow> modulePositions v' q = modulePositions ?v1 q"
    unfolding roots1 by blast
  have drag_eq: "updateModuleDrag doc v ev = Some v'"
    using drag run wp by (simp add: updateModuleDrag_def Let_def)
  have mS: "path m \<notin> ?S"
    using wellFormed_not_own_descendant [OF wf mn] by force
  have mA: "path m \<notin> ?A"
    using wellFormed_not_ancestor_path [OF wf mn, of m] by simp
  have own: "modulePositions v' (path m) = Some ?nb"
    using keep mA mS by (simp add: pos1 shiftBoxes_def)
  have own': "\<exists>bm. modulePositions v' (path m) = Some bm
            \<and> box_x bm = box_x b + dx \<and> box_y bm = box_y b + dy"
    using own dx dy by simp
  have desc: "\<exists>bd. modulePositions v (path d) = Some bd
              \<and> modulePositions v' (path d)
                  = Some \<lparr>box_x = box_x bd + dx, box_y = box_y bd + dy,
                          width = width bd, height = height bd\<rparr>"
    if d: "d \<in> set (descendants m) \<inter> set ?vis" for d
  proof -
    from d boxes obtain bd where bd: "modulePositions v (path d) = Some bd" by auto
    from d have dn: "d \<in> set (allNodes (rootModules v))"
      using visible_allNodes by blast
    from d have dA: "path d \<notin> ?A"
      using wellFormed_not_ancestor_path [OF wf dn, of m] by simp
    from d have dm: "path d \<noteq> path m"
      using wellFormed_not_own_descendant [OF wf mn] by simp
    from d have dS: "path d \<in> ?S" by blast
    have "modulePositions v' (path d) = modulePositions ?v1 (path d)"
      using keep dA by blast
    also have "\<dots> = Some (translateBox dx dy bd)"
      using dS dm bd by (simp add: pos1 shiftBoxes_def)
    finally show ?thesis using bd by (simp add: translateBox_def)
  qed
  have frame: "modulePositions v' q = modulePositions v q"
    if "q \<noteq> path m \<and> q \<notin> ?S \<and> q \<notin> ?A" for q
    using that keep by (simp add: pos1 shiftBoxes_def)
  from drag_eq own' desc frame show ?thesis by blast
qed


lemma exB_fields: "path exB = ''A/B''" "parentPath exB = ''A''" "children exB = [exD]"
  by (simp_all add: exB_def)

lemma exD_fields: "path exD = ''A/B/D''" "children exD = []"
  by (simp_all add: exD_def)

lemma exDragging_fields:
  "modulePositions exDragging = exBoxes"
  "expandedModules exDragging = {''A'', ''A/B''}"
  "canvasManager exDragging = newCanvasManager"
  "rootModules exDragging = [exA, exC]"
  "draggedModule (dragState exDragging) = Some exB"
  "isDragging (dragState exDragging)"
  "offset (dragState exDragging) = \<lparr>px = 10, py = 10\<rparr>"
  by (simp_all add: exDragging_def exRendered_fields)

lemma wellFormed_exDragging: "wellFormed exDragging"
  using wellFormed_exExpanded wellFormed_cong [of exDragging exExpanded]
  by (simp add: exDragging_def exRendered_def)

lemma visible_exDragging: "getVisibleModules exDragging = [exA, exB, exD, exC]"
  using visible_exExpanded getVisibleModules_cong [of exDragging exExpanded]
  by (simp add: exDragging_def exRendered_def)

lemma descendants_ex:
  "descendants exB = [exD]" "descendants exA = [exB, exD]" "descendants exC = []"
  "descendants exD = []"
  by (simp_all add: exA_def exB_def exC_def exD_def)

text \<open>
  C6, as the spec states it, fails on the boxes of modules that are not descendants:
  in the rendered example \<open>B\<close>, an expanded container inside the expanded root \<open>A\<close>, is
  dragged by (10, 10). \<open>A\<close> is not a descendant of \<open>B\<close>, and its stored box moves from
  (50, 50) to (60, 60), recomputed by \<open>updateParentContainer\<close> around the moved \<open>B\<close>.
\<close>

theorem C6_nondescendants_unchanged_counterexample:
  "draggedModule (dragState exDragging) = Some exB
   \<and> path exB \<in> expandedModules exDragging
   \<and> exA \<notin> set (descendants exB)
   \<and> modulePositions exDragging (path exA)
       = Some \<lparr>box_x = 50, box_y = 50, width = 300, height = 360\<rparr>
   \<and> updateModuleDrag exDoc exDragging \<lparr>clientX = 110, clientY = 170, button = 2\<rparr> \<noteq> None
   \<and> modulePositions
        (the (updateModuleDrag exDoc exDragging \<lparr>clientX = 110, clientY = 170, button = 2\<rparr>))
        (path exA)
       = Some \<lparr>box_x = 60, box_y = 60, width = 300, height = 360\<rparr>"
  by (simp add: updateModuleDrag_def updateModulePosition_def
        moveAllDescendants_def recalculateParentBounds_def childBounds_def
        screenToWorld_def updateParentContainer.simps getVisibleModules_def
        addExpandedChildren.simps allNodes_def exDragging_def
        newCanvasManager_def exRendered_def exExpanded_def exCollapsed_def exDoc_def exBoxes_def
        exA_def exB_def exC_def exD_def Let_def)

theorem C6_drag_moves_visible_descendants_witness:
  "\<exists>v'. updateModuleDrag exDoc exDragging \<lparr>clientX = 110, clientY = 170, button = 2\<rparr> = Some v'
      \<and> modulePositions v' ''A/B/D'' = Some \<lparr>box_x = 140, box_y = 260, width = 140, height = 80\<rparr>
      \<and> modulePositions v' ''C'' = Some \<lparr>box_x = 400, box_y = 50, width = 250, height = 120\<rparr>"
proof -
  let ?ev = "\<lparr>clientX = 110, clientY = 170, button = 2\<rparr>"
  let ?b = "\<lparr>box_x = 90, box_y = 150, width = 220, height = 220\<rparr>"
  have vis: "exB \<in> set (getVisibleModules exDragging)"
    by (simp add: visible_exDragging)
  have ex: "path exB \<in> expandedModules exDragging"
    by (simp add: exDragging_fields exB_fields)
  have boxes: "\<forall>x \<in> set (getVisibleModules exDragging). modulePositions exDragging (path x) \<noteq> None"
    by (simp add: visible_exDragging exDragging_fields exBoxes_def exA_def exB_def exC_def exD_def)
  have b: "modulePositions exDragging (path exB) = Some ?b"
    by (simp add: exDragging_fields exBoxes_def exB_fields)
  have wp: "\<lparr>px = 100, py = 160\<rparr> = screenToWorld (canvasManager exDragging)
               (clientX ?ev - left (containerRect exDoc) - px (offset (dragState exDragging)))
               (clientY ?ev - top (containerRect exDoc) - py (offset (dragState exDragging)))"
    by (simp add: exDragging_fields exDoc_C screenToWorld_def newCanvasManager_def)
  have dx: "(10::real) = px \<lparr>px = 100, py = 160\<rparr> - box_x ?b" by simp
  have dy: "(10::real) = py \<lparr>px = 100, py = 160\<rparr> - box_y ?b" by simp
  from C6_drag_moves_visible_descendants
    [OF wellFormed_exDragging exDragging_fields(5,6) vis ex boxes b wp dx dy]
  obtain v' where run: "updateModuleDrag exDoc exDragging ?ev = Some v'"
    and desc: "\<forall>d \<in> set (descendants exB) \<inter> set (getVisibleModules exDragging).
           \<exists>bd. modulePositions exDragging (path d) = Some bd
              \<and> modulePositions v' (path d)
                  = Some \<lparr>box_x = box_x bd + 10, box_y = box_y bd + 10,
                          width = width bd, height = height bd\<rparr>"
    and frame: "\<forall>q. q \<noteq> path exB
            \<and> q \<notin> path ` (set (descendants exB) \<inter> set (getVisibleModules exDragging))
            \<and> q \<notin> path ` {a \<in> set (allNodes (rootModules exDragging)). exB \<in> set (descendants a)}
          \<longrightarrow> modulePositions v' q = modulePositions exDragging q"
    by blast
  have "exD \<in> set (descendants exB) \<inter> set (getVisibleModules exDragging)"
    by (simp add: descendants_ex visible_exDragging)
  with desc have "\<exists>bd. modulePositions exDragging (path exD) = Some bd
              \<and> modulePositions v' (path exD)
                  = Some \<lparr>box_x = box_x bd + 10, box_y = box_y bd + 10,
                          width = width bd, height = height bd\<rparr>"
    by blast
  then have d: "modulePositions v' ''A/B/D'' = Some \<lparr>box_x = 140, box_y = 260, width = 140, height = 80\<rparr>"
    by (auto simp: exDragging_fields exD_fields exBoxes_def)
  have "''C'' \<noteq> path exB" by (simp add: exB_fields)
  moreover have "''C'' \<notin> path ` (set (descendants exB) \<inter> set (getVisibleModules exDragging))"
    by (simp add: descendants_ex visible_exDragging exD_fields)
  moreover have "''C'' \<notin> path ` {a \<in> set (allNodes (rootModules exDragging)). exB \<in> set (descendants a)}"
    by (auto simp: exDragging_fields allNodes_def descendants_ex exA_def exB_def exD_def)
  ultimately have "modulePositions v' ''C'' = modulePositions exDragging ''C''"
    using frame by blast
  then have c: "modulePositions v' ''C'' = Some \<lparr>box_x = 400, box_y = 50, width = 250, height = 120\<rparr>"
    by (simp add: exDragging_fields exBoxes_C)
  from run d c show ?thesis by blast
qed

subsection \<open>Connections of a module\<close>

lemma getConnectionsForModule_eq:
  "getConnectionsForModule m visibleModules =
     (case connections m of
        Some conns \<Rightarrow> if list_ex (\<lambda>child. child \<in> set visibleModules) (children m) then [] else conns
      | None \<Rightarrow> [])
     @ concat (map (\<lambda>child. getConnectionsForModule child visibleModules)
         (filter (\<lambda>child. child \<notin> set visibleModules) (children m)))"
proof (cases m)
  case (Module n p pp cs l t c)
  have "fold (\<lambda>child acc. if child \<notin> set visibleModules
                 then acc @ getConnectionsForModule child visibleModules else acc) cs init
        = init @ concat (map (\<lambda>child. getConnectionsForModule child visibleModules)
                   (filter (\<lambda>child. child \<notin> set visibleModules) cs))" for init
    by (induction cs arbitrary: init) simp_all
  then show ?thesis using Module by (simp split: option.splits)
qed

text \<open>
  C7, as the spec states it, fails: for the root \<open>A\<close> of the example, collapsed, with one
  declared connection and no visible child, the resolution step returns two connections,
  its own and the one declared by its hidden child \<open>B\<close>.
\<close>

theorem C7_own_connections_only_counterexample:
  "exA \<in> set (getVisibleModules exCollapsed)
   \<and> connections exA = Some [conn1]
   \<and> set (children exA) \<inter> set (getVisibleModules exCollapsed) = {}
   \<and> getConnectionsForModule exA (getVisibleModules exCollapsed) = [conn1, conn2]
   \<and> [conn1, conn2] \<noteq> [conn1]"
  by (simp add: visible_exCollapsed) (simp add: exA_def exB_def exC_def exD_def)

lemma descendants_children:
  "descendants m = concat (map (\<lambda>child. child # descendants child) (children m))"
  by (cases m) simp

lemma hidden_subtree_connections:
  "set (descendants m) \<inter> set vis = {} \<Longrightarrow>
   getConnectionsForModule m vis
     = declaredConnections m @ concat (map declaredConnections (descendants m))"
proof (induction m)
  case (Module n p pp cs l t c)
  let ?m = "Module n p pp cs l t c"
  have kids: "set cs \<inter> set vis = {}"
    using Module.prems by auto
  then have none: "\<not> list_ex (\<lambda>child. child \<in> set vis) cs"
    by (auto simp: list_ex_iff)
  from kids have all: "filter (\<lambda>child. child \<notin> set vis) cs = cs"
    by (auto simp: filter_id_conv)
  have sub: "getConnectionsForModule child vis
        = declaredConnections child @ concat (map declaredConnections (descendants child))"
    if "child \<in> set cs" for child
  proof -
    from that Module.prems have "set (descendants child) \<inter> set vis = {}" by auto
    from Module.IH [OF that this] show ?thesis .
  qed
  have "concat (map (\<lambda>child. getConnectionsForModule child vis) cs)
        = concat (map (\<lambda>child. declaredConnections child
                         @ concat (map declaredConnections (descendants child))) cs)"
    by (rule arg_cong [where f = concat], rule map_cong [OF refl]) (simp add: sub)
  also have "\<dots> = concat (map declaredConnections (concat (map (\<lambda>child. child # descendants child) cs)))"
    by (induction cs) simp_all
  finally have tail: "concat (map (\<lambda>child. getConnectionsForModule child vis) cs)
        = concat (map declaredConnections (descendants ?m))"
    by simp
  have own: "(case c of Some conns \<Rightarrow> if list_ex (\<lambda>child. child \<in> set vis) cs then [] else conns
              | None \<Rightarrow> []) = declaredConnections ?m"
    using none by (simp add: declaredConnections_def split: option.splits)
  show ?case
    unfolding getConnectionsForModule_eq [of ?m vis] module.sel all own tail ..
qed

lemma no_visible_children_no_visible_descendants:
  assumes wf: "wellFormed v"
    and M: "M \<in> set (allNodes (rootModules v))"
    and kids: "set (children M) \<inter> set (getVisibleModules v) = {}"
  shows "set (descendants M) \<inter> set (getVisibleModules v) = {}"
proof (rule ccontr)
  assume "set (descendants M) \<inter> set (getVisibleModules v) \<noteq> {}"
  then obtain d where d: "d \<in> set (descendants M)" "d \<in> set (getVisibleModules v)" by blast
  from d(1) obtain ch where ch: "ch \<in> set (children M)" "d = ch \<or> d \<in> set (descendants ch)"
    by (auto simp: descendants_children [of M])
  have chn: "ch \<in> set (allNodes (rootModules v))"
    using allNodes_closed [OF M] children_descendants [of M] ch(1) by auto
  have "ch \<in> set (getVisibleModules v)"
    using ch(2) d(2) visible_ancestors [OF wf d(2) chn] by auto
  with kids ch(1) show False by blast
qed

text \<open>
  C7, amended. In a well-formed tree, for a visible module with declared connections
  and no visible child, the connection list of the render pass is exactly the module's
  own declared connections, in order, followed by the declared connections of each of
  its descendants in pre-order (all of them are hidden then): the module's own
  connections come first and the rest is what its collapsed subtree declares.
\<close>

theorem C7_own_then_hidden_descendants:
  assumes "wellFormed v"
    and "M \<in> set (getVisibleModules v)"
    and "connections M = Some conns"
    and "set (children M) \<inter> set (getVisibleModules v) = {}"
  shows "getConnectionsForModule M (getVisibleModules v)
           = conns @ concat (map declaredConnections (descendants M))"
proof -
  have "M \<in> set (allNodes (rootModules v))"
    using assms(2) visible_allNodes by blast
  from no_visible_children_no_visible_descendants [OF assms(1) this assms(4)]
  have "getConnectionsForModule M (getVisibleModules v)
     = declaredConnections M @ concat (map declaredConnections (descendants M))"
    by (rule hidden_subtree_connections)
  then show ?thesis using assms(3) by (simp add: declaredConnections_def)
qed

theorem C7_own_then_hidden_descendants_witness:
  "descendants exA = [exB, exD]
   \<and> declaredConnections exB = [conn2]
   \<and> declaredConnections exD = []
   \<and> getConnectionsForModule exA (getVisibleModules exCollapsed) = [conn1, conn2]"
proof -
  have a: "exA \<in> set (getVisibleModules exCollapsed)" "connections exA = Some [conn1]"
    "set (children exA) \<inter> set (getVisibleModules exCollapsed) = {}"
    by (simp_all add: visible_exCollapsed) (simp_all add: exA_def exB_def exC_def exD_def)
  have d: "descendants exA = [exB, exD]"
    by (simp add: exA_def exB_def exD_def)
  have c: "declaredConnections exB = [conn2]" "declaredConnections exD = []"
    by (simp_all add: declaredConnections_def exB_def exD_def)
  from C7_own_then_hidden_descendants [OF wellFormed_exCollapsed a] d c
  show ?thesis by simp
qed

end
